theory Spec2Isabelle
  imports Main "HOL-Library.Word" "HOL-Library.Multiset"
begin

unbundle bit_operations_syntax

section \<open>WireCC: big-endian codecs, byte buffer, bitmap and generators\<close>

text \<open>
  A shallow embedding of \<^verbatim>\<open>include/wirecc/wirecc.h\<close>. Machine integers keep their
  widths: \<^verbatim>\<open>uint8_t\<close>, \<^verbatim>\<open>uint32_t\<close>/\<^verbatim>\<open>unsigned int\<close> and \<^verbatim>\<open>uint64_t\<close> are words of 8, 32
  and 64 bits, so every \<^verbatim>\<open>+=\<close> on them wraps as in C++. The size of a \<^verbatim>\<open>std::vector\<close>
  or \<^verbatim>\<open>std::string\<close> (\<^verbatim>\<open>size_t\<close>) is the length of a list, a natural number, and each
  conversion of such a size to a 32-bit variable is written out as \<open>word_of_nat\<close>.
\<close>

type_synonym u8 = "8 word"
type_synonym u32 = "32 word"
type_synonym u64 = "64 word"

subsection \<open>Endian codec\<close>

text \<open>
  The C functions take a pointer \<^verbatim>\<open>buf\<close> and access \<^verbatim>\<open>buf[0]\<close> .. \<^verbatim>\<open>buf[7]\<close>. A pointer
  is modelled as the byte list it points into together with an offset \<open>p\<close>, so that
  \<^verbatim>\<open>buf[i]\<close> is the element at index \<open>p + i\<close>. The callers check that the accessed
  range lies inside the list.
\<close>

definition be64encode :: "u64 \<Rightarrow> u8 list \<Rightarrow> nat \<Rightarrow> u8 list" where
  "be64encode val mem p = mem
     [p := ucast (drop_bit 56 val AND 0xff),
      p + 1 := ucast (drop_bit 48 val AND 0xff),
      p + 2 := ucast (drop_bit 40 val AND 0xff),
      p + 3 := ucast (drop_bit 32 val AND 0xff),
      p + 4 := ucast (drop_bit 24 val AND 0xff),
      p + 5 := ucast (drop_bit 16 val AND 0xff),
      p + 6 := ucast (drop_bit 8 val AND 0xff),
      p + 7 := ucast (val AND 0xff)]"

text \<open>
  In \<^verbatim>\<open>be64decode\<close> the byte \<^verbatim>\<open>buf[7]\<close> is shifted as an \<^verbatim>\<open>int\<close> (integer promotion)
  and only then converted to 64 bits, which sign-extends; the other bytes are converted
  first and shifted as 64-bit values.
\<close>

definition be64decode :: "u8 list \<Rightarrow> nat \<Rightarrow> u64" where
  "be64decode mem p =
     (scast (push_bit 0 (ucast (mem ! (p + 7)) :: u32)) OR
      push_bit 8 (ucast (mem ! (p + 6))) OR
      push_bit 16 (ucast (mem ! (p + 5))) OR
      push_bit 24 (ucast (mem ! (p + 4))) OR
      push_bit 32 (ucast (mem ! (p + 3))) OR
      push_bit 40 (ucast (mem ! (p + 2))) OR
      push_bit 48 (ucast (mem ! (p + 1))) OR
      push_bit 56 (ucast (mem ! p)))"

definition be32encode :: "u32 \<Rightarrow> u8 list \<Rightarrow> nat \<Rightarrow> u8 list" where
  "be32encode val mem p = mem
     [p := ucast (drop_bit 24 val AND 0xff),
      p + 1 := ucast (drop_bit 16 val AND 0xff),
      p + 2 := ucast (drop_bit 8 val AND 0xff),
      p + 3 := ucast (val AND 0xff)]"

text \<open>
  \<^verbatim>\<open>be32decode\<close> computes on promoted \<^verbatim>\<open>int\<close>s; on the two's-complement targets the
  header assumes, the 32 bits of the result are those of the same operations on
  unsigned 32-bit words.
\<close>

definition be32decode :: "u8 list \<Rightarrow> nat \<Rightarrow> u32" where
  "be32decode mem p =
     (push_bit 0 (ucast (mem ! (p + 3))) OR
      push_bit 8 (ucast (mem ! (p + 2))) OR
      push_bit 16 (ucast (mem ! (p + 1))) OR
      push_bit 24 (ucast (mem ! p)))"

subsection \<open>Byte buffer\<close>

text \<open>
  \<^verbatim>\<open>class ByteBuffer\<close> has a \<^verbatim>\<open>std::vector<uint8_t> buf\<close> and an \<^verbatim>\<open>unsigned int pos\<close>.
  An access \<^verbatim>\<open>buf[i]\<close> with \<open>i\<close> not below the vector's size is undefined behaviour in
  C++; the model returns \<open>Inl OutOfBounds\<close> wherever the code would read or write
  such a byte. Forming the address \<^verbatim>\<open>&buf[pos]\<close> without accessing a byte through it is
  not counted as an access. The other errors belong to the bitmap and the generators.
\<close>

datatype error = OutOfBounds | AssertionFailed | UndefinedShift

record ByteBuffer =
  buf :: "u8 list"
  pos :: u32

definition ByteBuffer_clear :: "ByteBuffer \<Rightarrow> ByteBuffer" where
  "ByteBuffer_clear b = \<lparr>buf = [], pos = 0\<rparr>"

text \<open>The constructor \<^verbatim>\<open>ByteBuffer() {clear();}\<close>.\<close>

definition ByteBuffer_new :: ByteBuffer where
  "ByteBuffer_new = \<lparr>buf = [], pos = 0\<rparr>"

definition ByteBuffer_data :: "ByteBuffer \<Rightarrow> u8 list" where
  "ByteBuffer_data b = buf b"

text \<open>\<^verbatim>\<open>unsigned int size() const {return buf.size();}\<close> truncates to 32 bits.\<close>

definition ByteBuffer_size :: "ByteBuffer \<Rightarrow> u32" where
  "ByteBuffer_size b = word_of_nat (length (buf b))"

definition setPos :: "u32 \<Rightarrow> ByteBuffer \<Rightarrow> ByteBuffer" where
  "setPos newPos b = b\<lparr>pos := newPos\<rparr>"

definition getPos :: "ByteBuffer \<Rightarrow> u32" where
  "getPos b = pos b"

text \<open>
  \<^verbatim>\<open>load(data, size)\<close>: the pointer \<^verbatim>\<open>data\<close> is the list \<open>mem\<close> with the offset
  \<open>off\<close>; the bytes \<open>off ..< off + size\<close> are read.
\<close>

definition load :: "u8 list \<Rightarrow> nat \<Rightarrow> u32 \<Rightarrow> ByteBuffer \<Rightarrow> error + ByteBuffer" where
  "load mem off sz b =
     (let b0 = ByteBuffer_clear b in
      if off + unat sz \<le> length mem
      then Inr (b0\<lparr>buf := take (unat sz) (drop off mem) @ buf b0\<rparr>)
      else Inl OutOfBounds)"

definition concat_bytes :: "u8 list \<Rightarrow> nat \<Rightarrow> u32 \<Rightarrow> ByteBuffer \<Rightarrow> error + ByteBuffer" where
  "concat_bytes mem off sz b =
     (if off + unat sz \<le> length mem
      then Inr \<lparr>buf = buf b @ take (unat sz) (drop off mem), pos = pos b + sz\<rparr>
      else Inl OutOfBounds)"

text \<open>
  \<^verbatim>\<open>writeU64\<close>: \<^verbatim>\<open>buf.resize(buf.size() + 8)\<close> appends eight zero bytes, then
  \<^verbatim>\<open>be64encode(val, &buf[pos])\<close> stores at the position, then \<^verbatim>\<open>pos += 8\<close>.
\<close>

definition writeU64 :: "u64 \<Rightarrow> ByteBuffer \<Rightarrow> error + ByteBuffer" where
  "writeU64 val b =
     (let buf1 = buf b @ replicate 8 0 in
      if unat (pos b) + 8 \<le> length buf1
      then Inr \<lparr>buf = be64encode val buf1 (unat (pos b)), pos = pos b + 8\<rparr>
      else Inl OutOfBounds)"

definition readU64 :: "ByteBuffer \<Rightarrow> error + u64 \<times> ByteBuffer" where
  "readU64 b =
     (if unat (pos b) + 8 \<le> length (buf b)
      then Inr (be64decode (buf b) (unat (pos b)), b\<lparr>pos := pos b + 8\<rparr>)
      else Inl OutOfBounds)"

definition writeUint :: "u32 \<Rightarrow> ByteBuffer \<Rightarrow> error + ByteBuffer" where
  "writeUint val b =
     (let buf1 = buf b @ replicate 4 0 in
      if unat (pos b) + 4 \<le> length buf1
      then Inr \<lparr>buf = be32encode val buf1 (unat (pos b)), pos = pos b + 4\<rparr>
      else Inl OutOfBounds)"

definition readUint :: "ByteBuffer \<Rightarrow> error + u32 \<times> ByteBuffer" where
  "readUint b =
     (if unat (pos b) + 4 \<le> length (buf b)
      then Inr (be32decode (buf b) (unat (pos b)), b\<lparr>pos := pos b + 4\<rparr>)
      else Inl OutOfBounds)"

text \<open>
  A C++ \<^verbatim>\<open>int\<close> is an integer between \<open>- 2^31\<close> and \<open>2^31 - 1\<close>.
  \<^verbatim>\<open>unsigned int tmp = val\<close> is reduction modulo \<open>2^32\<close> (\<open>word_of_int\<close>), and
  \<^verbatim>\<open>val = tmp\<close> reads the 32 bits back as two's complement (\<open>sint\<close>).
\<close>

definition writeInt :: "int \<Rightarrow> ByteBuffer \<Rightarrow> error + ByteBuffer" where
  "writeInt val b = (let tmp = (word_of_int val :: u32) in writeUint tmp b)"

definition readInt :: "ByteBuffer \<Rightarrow> error + int \<times> ByteBuffer" where
  "readInt b =
     (case readUint b of
        Inl e \<Rightarrow> Inl e
      | Inr (tmp, b1) \<Rightarrow> Inr (sint tmp, b1))"

definition writeBool :: "bool \<Rightarrow> ByteBuffer \<Rightarrow> error + ByteBuffer" where
  "writeBool val b =
     (let buf1 = buf b @ replicate 1 0 in
      if unat (pos b) < length buf1
      then Inr \<lparr>buf = buf1[unat (pos b) := (if val then 1 else 0)], pos = pos b + 1\<rparr>
      else Inl OutOfBounds)"

definition readBool :: "ByteBuffer \<Rightarrow> error + bool \<times> ByteBuffer" where
  "readBool b =
     (if unat (pos b) < length (buf b)
      then Inr (buf b ! unat (pos b) \<noteq> 0, b\<lparr>pos := pos b + 1\<rparr>)
      else Inl OutOfBounds)"

text \<open>
  A \<^verbatim>\<open>std::string\<close> is a list of 8-bit characters; storing a \<^verbatim>\<open>char\<close> into a
  \<^verbatim>\<open>uint8_t\<close> and back keeps the eight bits.
\<close>

definition byte_of_char :: "char \<Rightarrow> u8" where
  "byte_of_char c = word_of_nat (of_char c)"

definition char_of_byte :: "u8 \<Rightarrow> char" where
  "char_of_byte w = char_of (unat w)"

text \<open>
  The loop of \<^verbatim>\<open>writeString\<close>:
  \<^verbatim>\<open>for (unsigned int i=0; i < size; ++i){ *(&buf[pos]) = val[i]; ++pos; }\<close>
\<close>

function writeString_loop :: "string \<Rightarrow> nat \<Rightarrow> nat \<Rightarrow> ByteBuffer \<Rightarrow> error + ByteBuffer" where
  "writeString_loop val i sz b =
     (if i < sz
      then (if unat (pos b) < length (buf b) \<and> i < length val
            then writeString_loop val (Suc i) sz
                   \<lparr>buf = (buf b)[unat (pos b) := byte_of_char (val ! i)], pos = pos b + 1\<rparr>
            else Inl OutOfBounds)
      else Inr b)"
  by pat_completeness auto
termination
  by (relation "measure (\<lambda>(val, i, sz, b). sz - i)") auto

declare writeString_loop.simps [simp del]

definition writeString :: "string \<Rightarrow> ByteBuffer \<Rightarrow> error + ByteBuffer" where
  "writeString val b =
     (let sz = (word_of_nat (length val) :: u32) in
      case writeUint sz b of
        Inl e \<Rightarrow> Inl e
      | Inr b1 \<Rightarrow>
          writeString_loop val 0 (unat sz) (b1\<lparr>buf := buf b1 @ replicate (unat sz) 0\<rparr>))"

text \<open>
  The loop of \<^verbatim>\<open>readString\<close>:
  \<^verbatim>\<open>while (size-- > 0){ val.push_back(*(&buf[pos])); ++pos; }\<close>
\<close>

fun readString_loop :: "nat \<Rightarrow> string \<Rightarrow> ByteBuffer \<Rightarrow> error + string \<times> ByteBuffer" where
  "readString_loop 0 val b = Inr (val, b)"
| "readString_loop (Suc n) val b =
     (if unat (pos b) < length (buf b)
      then readString_loop n (val @ [char_of_byte (buf b ! unat (pos b))]) (b\<lparr>pos := pos b + 1\<rparr>)
      else Inl OutOfBounds)"

definition readString :: "string \<Rightarrow> ByteBuffer \<Rightarrow> error + string \<times> ByteBuffer" where
  "readString val b =
     (case readUint b of
        Inl e \<Rightarrow> Inl e
      | Inr (sz, b1) \<Rightarrow> readString_loop (unat sz) val b1)"

text \<open>
  \<^verbatim>\<open>readRset\<close> inserts each decoded \<^verbatim>\<open>ResourceId\<close> (an \<^verbatim>\<open>int\<close>) into the
  \<^verbatim>\<open>std::set<int>\<close> it is given.
\<close>

fun readRset_loop :: "nat \<Rightarrow> int set \<Rightarrow> ByteBuffer \<Rightarrow> error + int set \<times> ByteBuffer" where
  "readRset_loop 0 val b = Inr (val, b)"
| "readRset_loop (Suc n) val b =
     (case readInt b of
        Inl e \<Rightarrow> Inl e
      | Inr (r, b1) \<Rightarrow> readRset_loop n (insert r val) b1)"

definition readRset :: "int set \<Rightarrow> ByteBuffer \<Rightarrow> error + int set \<times> ByteBuffer" where
  "readRset val b =
     (case readUint b of
        Inl e \<Rightarrow> Inl e
      | Inr (sz, b1) \<Rightarrow> readRset_loop (unat sz) val b1)"

text \<open>
  \<^verbatim>\<open>writeBuffer(b)\<close>: \<^verbatim>\<open>writeUint(b.size())\<close>, then
  \<^verbatim>\<open>buf.insert(buf.end(), b.data(), b.data()+b.size())\<close>, then \<^verbatim>\<open>pos += b.size()\<close>.
  The argument \<open>nested\<close> is a buffer other than the one written to.
\<close>

definition writeBuffer :: "ByteBuffer \<Rightarrow> ByteBuffer \<Rightarrow> error + ByteBuffer" where
  "writeBuffer nested b =
     (case writeUint (ByteBuffer_size nested) b of
        Inl e \<Rightarrow> Inl e
      | Inr b1 \<Rightarrow>
          Inr \<lparr>buf = buf b1 @ take (unat (ByteBuffer_size nested)) (ByteBuffer_data nested),
               pos = pos b1 + ByteBuffer_size nested\<rparr>)"

text \<open>
  \<^verbatim>\<open>readBuffer(buffer)\<close>: \<^verbatim>\<open>readUint(size)\<close>, then \<^verbatim>\<open>buffer.load(&buf[pos], size)\<close>, then
  \<^verbatim>\<open>pos += size\<close>. The result is the loaded output buffer and the updated reader.
\<close>

definition readBuffer :: "ByteBuffer \<Rightarrow> ByteBuffer \<Rightarrow> error + ByteBuffer \<times> ByteBuffer" where
  "readBuffer out b =
     (case readUint b of
        Inl e \<Rightarrow> Inl e
      | Inr (sz, b1) \<Rightarrow>
          (case load (buf b1) (unat (pos b1)) sz out of
             Inl e \<Rightarrow> Inl e
           | Inr out1 \<Rightarrow> Inr (out1, b1\<lparr>pos := pos b1 + sz\<rparr>)))"

subsection \<open>Bitmap\<close>

text \<open>
  \<^verbatim>\<open>class Bitmap\<close> has the fields \<^verbatim>\<open>uint64_t flags, mask\<close>. The constructor computes
  \<^verbatim>\<open>mask = (uint64_t) std::pow(2, maxBits) - (uint64_t) 1\<close> with \<^verbatim>\<open>uint8_t maxBits\<close>.
  Every power of two up to \<open>2^255\<close> is a \<^verbatim>\<open>double\<close>, and \<^verbatim>\<open>std::pow\<close> is taken to
  return it exactly. Converting a \<^verbatim>\<open>double\<close> that is \<open>2^64\<close> or more to \<^verbatim>\<open>uint64_t\<close>
  is undefined behaviour in C++ (the value is not representable), so for
  \<open>maxBits \<ge> 64\<close> the model has no result.
\<close>

record Bitmap =
  flags :: u64
  mask_field :: u64

definition Bitmap_clear :: "Bitmap \<Rightarrow> Bitmap" where
  "Bitmap_clear b = b\<lparr>flags := 0\<rparr>"

definition Bitmap_new :: "u8 \<Rightarrow> Bitmap option" where
  "Bitmap_new maxBits =
     (if unat maxBits < 64
      then Some \<lparr>flags = 0, mask_field = word_of_nat (2 ^ unat maxBits) - 1\<rparr>
      else None)"

definition isEmpty :: "Bitmap \<Rightarrow> bool" where
  "isEmpty b = (flags b = 0)"

definition isFull :: "Bitmap \<Rightarrow> bool" where
  "isFull b = (flags b = mask_field b)"

definition getFlags :: "Bitmap \<Rightarrow> u64" where
  "getFlags b = flags b"

text \<open>
  \<^verbatim>\<open>set(bit)\<close>: \<^verbatim>\<open>WIRECC_ASSERT(bit < 64); flags |= ((uint64_t) 1 << bit);\<close>. With
  \<open>bit \<ge> 64\<close> the assertion fails, or, with assertions compiled out, the shift is
  undefined. \<^verbatim>\<open>unset(bit)\<close>: \<^verbatim>\<open>flags &= (mask ^ ((uint64_t) 1 << bit));\<close>, with the same
  undefined shift and no assertion.
\<close>

definition Bitmap_set :: "u32 \<Rightarrow> Bitmap \<Rightarrow> error + Bitmap" where
  "Bitmap_set bitpos b =
     (if unat bitpos < 64
      then Inr (b\<lparr>flags := flags b OR push_bit (unat bitpos) 1\<rparr>)
      else Inl AssertionFailed)"

definition Bitmap_unset :: "u32 \<Rightarrow> Bitmap \<Rightarrow> error + Bitmap" where
  "Bitmap_unset bitpos b =
     (if unat bitpos < 64
      then Inr (b\<lparr>flags := flags b AND (mask_field b XOR push_bit (unat bitpos) 1)\<rparr>)
      else Inl UndefinedShift)"

text \<open>A mutation of a bitmap, and the bitmaps seen after each mutation of a sequence.\<close>

datatype mutation = Set u32 | Unset u32 | Clear

fun mutate :: "mutation \<Rightarrow> Bitmap \<Rightarrow> error + Bitmap" where
  "mutate (Set bitpos) b = Bitmap_set bitpos b"
| "mutate (Unset bitpos) b = Bitmap_unset bitpos b"
| "mutate Clear b = Inr (Bitmap_clear b)"

fun mutations :: "mutation list \<Rightarrow> Bitmap \<Rightarrow> error + Bitmap list" where
  "mutations [] b = Inr []"
| "mutations (m # ms) b =
     (case mutate m b of
        Inl e \<Rightarrow> Inl e
      | Inr b1 \<Rightarrow> (case mutations ms b1 of Inl e \<Rightarrow> Inl e | Inr bs \<Rightarrow> Inr (b1 # bs)))"

subsection \<open>Random generator\<close>

text \<open>
  \<^verbatim>\<open>RandomGenerator<K, V>\<close> holds \<^verbatim>\<open>std::vector<K> elems\<close> and a pointer \<^verbatim>\<open>from\<close> to a
  \<^verbatim>\<open>std::map<K, V>\<close>. The map is the list of its entries in iteration order; its keys are
  distinct. \<^verbatim>\<open>rand()\<close> returns a non-negative \<^verbatim>\<open>int\<close>: the value it returns at a call
  of \<^verbatim>\<open>get()\<close> is the argument \<open>r\<close>. With an empty map, \<^verbatim>\<open>WIRECC_ASSERT(from->size() > 0)\<close>
  fails, or, compiled out, \<^verbatim>\<open>rand() % elems.size()\<close> divides by zero.
\<close>

record ('k, 'v) RandomGenerator =
  rg_elems :: "'k list"
  rg_from :: "('k \<times> 'v) list"

definition RandomGenerator_new :: "('k \<times> 'v) list \<Rightarrow> ('k, 'v) RandomGenerator" where
  "RandomGenerator_new pool = \<lparr>rg_elems = [], rg_from = pool\<rparr>"

definition RandomGenerator_reset :: "('k, 'v) RandomGenerator \<Rightarrow> ('k, 'v) RandomGenerator" where
  "RandomGenerator_reset g = g\<lparr>rg_elems := []\<rparr>"

definition RandomGenerator_get ::
  "nat \<Rightarrow> ('k, 'v) RandomGenerator \<Rightarrow> error + 'k \<times> ('k, 'v) RandomGenerator" where
  "RandomGenerator_get r g =
     (if rg_elems g = [] \<and> rg_from g = [] then Inl AssertionFailed
      else
        let es = (if rg_elems g = [] then rg_elems g @ map fst (rg_from g) else rg_elems g);
            i = r mod length es
        in Inr (es ! i, g\<lparr>rg_elems := take i es @ drop (Suc i) es\<rparr>))"

text \<open>Successive calls of \<^verbatim>\<open>get()\<close>, one for each value of the random source.\<close>

fun RandomGenerator_gets ::
  "nat list \<Rightarrow> ('k, 'v) RandomGenerator \<Rightarrow> error + 'k list \<times> ('k, 'v) RandomGenerator" where
  "RandomGenerator_gets [] g = Inr ([], g)"
| "RandomGenerator_gets (r # rs) g =
     (case RandomGenerator_get r g of
        Inl e \<Rightarrow> Inl e
      | Inr (k, g1) \<Rightarrow>
          (case RandomGenerator_gets rs g1 of
             Inl e \<Rightarrow> Inl e
           | Inr (ks, g2) \<Rightarrow> Inr (k # ks, g2)))"

subsection \<open>Combination generator\<close>

text \<open>
  \<^verbatim>\<open>std::next_permutation\<close> of the C++ standard library, on a list: with \<open>i\<close> the last
  index such that \<open>xs ! i < xs ! (i + 1)\<close> and \<open>j\<close> the last index such that
  \<open>xs ! i < xs ! j\<close>, the elements at \<open>i\<close> and \<open>j\<close> are swapped and the part after \<open>i\<close>
  is reversed, and the result is \<open>True\<close>; when there is no such \<open>i\<close> the whole list is
  reversed and the result is \<open>False\<close>. \<open>next_greater xs\<close> is the first case: the part
  after \<open>i\<close> is non-increasing, so its reverse is ascending and \<open>j\<close> is the first
  position of the reverse that holds an element above the pivot.
\<close>

definition swap_reverse :: "'a::linorder \<Rightarrow> 'a list \<Rightarrow> 'a list" where
  "swap_reverse x xs =
     (let zs = rev xs;
          lo = takeWhile (\<lambda>z. \<not> x < z) zs;
          hi = dropWhile (\<lambda>z. \<not> x < z) zs
      in hd hi # lo @ x # tl hi)"

fun next_greater :: "'a::linorder list \<Rightarrow> 'a list option" where
  "next_greater [] = None"
| "next_greater (x # xs) =
     (case next_greater xs of
        Some ys \<Rightarrow> Some (x # ys)
      | None \<Rightarrow> (if xs \<noteq> [] \<and> x < hd xs then Some (swap_reverse x xs) else None))"

definition next_permutation :: "'a::linorder list \<Rightarrow> 'a list \<times> bool" where
  "next_permutation xs =
     (case next_greater xs of Some ys \<Rightarrow> (ys, True) | None \<Rightarrow> (rev xs, False))"

text \<open>
  \<^verbatim>\<open>CombinationGenerator<T>\<close> holds \<^verbatim>\<open>std::vector<bool> bmap\<close>, \<^verbatim>\<open>ElemList elems\<close>, the
  pointer \<^verbatim>\<open>from\<close> to the pool, \<^verbatim>\<open>bool greater\<close> and \<^verbatim>\<open>unsigned int ssize\<close>. The pool is
  the list of its elements in iteration order.
\<close>

record 'a CombinationGenerator =
  cg_bmap :: "bool list"
  cg_elems :: "'a list"
  cg_from :: "'a list"
  cg_greater :: bool
  cg_ssize :: u32

definition CombinationGenerator_new :: "'a list \<Rightarrow> u32 \<Rightarrow> 'a CombinationGenerator" where
  "CombinationGenerator_new pool sampleSize =
     \<lparr>cg_bmap = [], cg_elems = [], cg_from = pool, cg_greater = False, cg_ssize = sampleSize\<rparr>"

definition hasNext :: "'a CombinationGenerator \<Rightarrow> bool" where
  "hasNext g = (cg_greater g \<or> (cg_bmap g = [] \<and> length (cg_from g) \<ge> unat (cg_ssize g)))"

text \<open>
  \<^verbatim>\<open>get()\<close>. With \<^verbatim>\<open>ssize\<close> above the pool's size, \<^verbatim>\<open>bmap.begin() + from->size() - ssize\<close>
  lies before the vector and \<^verbatim>\<open>std::fill\<close> is undefined; \<^verbatim>\<open>elems[i]\<close> with \<open>i\<close> not below
  the size of \<^verbatim>\<open>elems\<close> is undefined as well.
\<close>

definition CombinationGenerator_get ::
  "'a CombinationGenerator \<Rightarrow> error + 'a list \<times> 'a CombinationGenerator" where
  "CombinationGenerator_get g =
     (let n = length (cg_from g); k = unat (cg_ssize g) in
      if cg_bmap g = [] \<and> n < k then Inl OutOfBounds
      else
        let bmap1 = (if cg_bmap g = [] then replicate (n - k) False @ replicate k True
                     else cg_bmap g);
            elems1 = (if cg_bmap g = [] then cg_elems g @ cg_from g else cg_elems g)
        in if list_ex (\<lambda>i. bmap1 ! i \<and> length elems1 \<le> i) [0..<length bmap1]
           then Inl OutOfBounds
           else
             let ret = map (\<lambda>i. elems1 ! i) (filter (\<lambda>i. bmap1 ! i) [0..<length bmap1]);
                 (bmap2, gr) = next_permutation bmap1
             in Inr (ret, g\<lparr>cg_bmap := bmap2, cg_elems := elems1, cg_greater := gr\<rparr>))"

text \<open>
  The caller's loop \<^verbatim>\<open>while (gen.hasNext()) { ... gen.get() ... }\<close>, collecting the
  combinations. The loop need not end: it runs on fuel, and \<open>None\<close> says that the fuel
  ran out with \<^verbatim>\<open>hasNext()\<close> still true.
\<close>

fun drain :: "nat \<Rightarrow> 'a CombinationGenerator \<Rightarrow> (error + 'a list list) option" where
  "drain 0 g = (if hasNext g then None else Some (Inr []))"
| "drain (Suc fuel) g =
     (if hasNext g
      then (case CombinationGenerator_get g of
              Inl e \<Rightarrow> Some (Inl e)
            | Inr (c, g1) \<Rightarrow>
                (case drain fuel g1 of
                   None \<Rightarrow> None
                 | Some (Inl e) \<Rightarrow> Some (Inl e)
                 | Some (Inr cs) \<Rightarrow> Some (Inr (c # cs))))
      else Some (Inr []))"

subsection \<open>Notions used in the statements\<close>

text \<open>
  \<open>store mem p as\<close> is \<open>mem\<close> with the elements from index \<open>p\<close> on replaced by \<open>as\<close>;
  the elements before \<open>p\<close> and those from \<open>p + length as\<close> on are kept.
\<close>

definition store :: "'a list \<Rightarrow> nat \<Rightarrow> 'a list \<Rightarrow> 'a list" where
  "store mem p as = take p mem @ as @ drop (p + length as) mem"

text \<open>The big-endian byte sequences of a 64-bit and of a 32-bit value.\<close>

definition be64_bytes :: "u64 \<Rightarrow> u8 list" where
  "be64_bytes v =
     [ucast (drop_bit 56 v), ucast (drop_bit 48 v), ucast (drop_bit 40 v), ucast (drop_bit 32 v),
      ucast (drop_bit 24 v), ucast (drop_bit 16 v), ucast (drop_bit 8 v), ucast v]"

definition be32_bytes :: "u32 \<Rightarrow> u8 list" where
  "be32_bytes v = [ucast (drop_bit 24 v), ucast (drop_bit 16 v), ucast (drop_bit 8 v), ucast v]"

text \<open>The bitmap's invariant, and the mutations that keep within \<open>maxBits\<close>.\<close>

definition within_mask :: "Bitmap \<Rightarrow> bool" where
  "within_mask b = (flags b AND NOT (mask_field b) = 0)"

fun in_range :: "u8 \<Rightarrow> mutation \<Rightarrow> bool" where
  "in_range maxBits (Set bitpos) = (unat bitpos < unat maxBits)"
| "in_range maxBits (Unset bitpos) = (unat bitpos < 64)"
| "in_range maxBits Clear = True"

text \<open>
  The selection masks of length \<open>n\<close> with \<open>k\<close> positions set, in lexicographic order
  (\<open>False\<close> before \<open>True\<close>); \<open>linked\<close> says that each mask of a list is followed by its
  \<^verbatim>\<open>next_permutation\<close>; \<open>chosen elems m\<close> are the elements that the loop of \<^verbatim>\<open>get()\<close>
  collects under the mask \<open>m\<close>.
\<close>

fun masks :: "nat \<Rightarrow> nat \<Rightarrow> bool list list" where
  "masks 0 k = (if k = 0 then [[]] else [])"
| "masks (Suc n) k =
     map ((#) False) (masks n k) @ (if k = 0 then [] else map ((#) True) (masks n (k - 1)))"

fun linked :: "bool list list \<Rightarrow> bool" where
  "linked [] = True"
| "linked [m] = True"
| "linked (m # m' # ms) = (next_greater m = Some m' \<and> linked (m' # ms))"

definition chosen :: "'a list \<Rightarrow> bool list \<Rightarrow> 'a list" where
  "chosen elems m = map (\<lambda>i. elems ! i) (filter (\<lambda>i. m ! i) [0..<length m])"

section \<open>Theorems\<close>

subsection \<open>Lists\<close>

lemma length_store: "p + length as \<le> length mem \<Longrightarrow> length (store mem p as) = length mem"
  by (simp add: store_def)

lemma store_single: "p < length mem \<Longrightarrow> mem[p := a] = store mem p [a]"
  by (simp add: store_def upd_conv_take_nth_drop)

lemma store_snoc:
  "n = length as \<Longrightarrow> p + n < length mem \<Longrightarrow>
   (store mem p as)[p + n := a] = store mem p (as @ [a])"
  by (simp add: store_def list_update_append upd_conv_take_nth_drop drop_Suc tl_drop
      flip: Cons_nth_drop_Suc)

lemma update4_store:
  assumes "p + 4 \<le> length mem"
  shows "mem[p := a0, p + 1 := a1, p + 2 := a2, p + 3 := a3] = store mem p [a0, a1, a2, a3]"
proof -
  have 1: "mem[p := a0] = store mem p [a0]" using assms by (simp add: store_single)
  have 2: "(store mem p [a0])[p + 1 := a1] = store mem p ([a0] @ [a1])"
    by (rule store_snoc) (use assms in simp_all)
  have 3: "(store mem p [a0, a1])[p + 2 := a2] = store mem p ([a0, a1] @ [a2])"
    by (rule store_snoc) (use assms in simp_all)
  have 4: "(store mem p [a0, a1, a2])[p + 3 := a3] = store mem p ([a0, a1, a2] @ [a3])"
    by (rule store_snoc) (use assms in simp_all)
  show ?thesis by (simp only: 1 2 3 4 append.simps)
qed

lemma update8_store:
  assumes "p + 8 \<le> length mem"
  shows "mem[p := a0, p + 1 := a1, p + 2 := a2, p + 3 := a3, p + 4 := a4, p + 5 := a5,
             p + 6 := a6, p + 7 := a7] = store mem p [a0, a1, a2, a3, a4, a5, a6, a7]"
proof -
  have 1: "mem[p := a0, p + 1 := a1, p + 2 := a2, p + 3 := a3] = store mem p [a0, a1, a2, a3]"
    by (rule update4_store) (use assms in simp)
  have 5: "(store mem p [a0, a1, a2, a3])[p + 4 := a4] = store mem p ([a0, a1, a2, a3] @ [a4])"
    by (rule store_snoc) (use assms in simp_all)
  have 6: "(store mem p [a0, a1, a2, a3, a4])[p + 5 := a5] =
             store mem p ([a0, a1, a2, a3, a4] @ [a5])"
    by (rule store_snoc) (use assms in simp_all)
  have 7: "(store mem p [a0, a1, a2, a3, a4, a5])[p + 6 := a6] =
             store mem p ([a0, a1, a2, a3, a4, a5] @ [a6])"
    by (rule store_snoc) (use assms in simp_all)
  have 8: "(store mem p [a0, a1, a2, a3, a4, a5, a6])[p + 7 := a7] =
             store mem p ([a0, a1, a2, a3, a4, a5, a6] @ [a7])"
    by (rule store_snoc) (use assms in simp_all)
  show ?thesis by (simp only: 1 5 6 7 8 append.simps)
qed

lemma take_drop_store:
  "p + length as \<le> length mem \<Longrightarrow> take (length as) (drop p (store mem p as)) = as"
  by (simp add: store_def)

subsection \<open>Endian codec\<close>

lemma length_be64encode [simp]: "length (be64encode v mem p) = length mem"
  by (simp add: be64encode_def)

lemma length_be32encode [simp]: "length (be32encode v mem p) = length mem"
  by (simp add: be32encode_def)

lemma length_be64_bytes [simp]: "length (be64_bytes v) = 8"
  by (simp add: be64_bytes_def)

lemma length_be32_bytes [simp]: "length (be32_bytes v) = 4"
  by (simp add: be32_bytes_def)

lemma ff_mask: "(0xff :: 'a::len word) = mask 8"
  by (simp add: mask_eq_exp_minus_1)

lemma ucast_and_ff: "(ucast ((x :: 'a::len word) AND 0xff) :: u8) = ucast x"
  unfolding ff_mask
  by (rule bit_word_eqI) (auto simp add: bit_simps dest: bit_imp_le_length)

lemma be64encode_store:
  "p + 8 \<le> length mem \<Longrightarrow> be64encode v mem p = store mem p (be64_bytes v)"
  by (simp only: be64encode_def be64_bytes_def ucast_and_ff update8_store)

lemma be32encode_store:
  "p + 4 \<le> length mem \<Longrightarrow> be32encode v mem p = store mem p (be32_bytes v)"
  by (simp only: be32encode_def be32_bytes_def ucast_and_ff update4_store)

lemma scast_ucast8: "(scast (ucast (b::u8) :: u32) :: u64) = ucast b"
  by (rule bit_word_eqI) (auto simp add: bit_simps min_def dest: bit_imp_le_length)

lemma byte32:
  "(push_bit k (ucast (ucast (drop_bit k (v::u32)) :: u8)) :: u32) = v AND push_bit k (mask 8)"
  by (rule bit_word_eqI) (auto simp add: bit_simps dest: bit_imp_le_length)

lemma byte64:
  "(push_bit k (ucast (ucast (drop_bit k (v::u64)) :: u8)) :: u64) = v AND push_bit k (mask 8)"
  by (rule bit_word_eqI) (auto simp add: bit_simps dest: bit_imp_le_length)

lemma masks32:
  "(push_bit 0 (mask 8) OR push_bit 8 (mask 8) OR push_bit 16 (mask 8) OR
    push_bit 24 (mask 8) :: u32) = - 1"
  by (simp add: mask_eq_exp_minus_1)

lemma masks64:
  "(push_bit 0 (mask 8) OR push_bit 8 (mask 8) OR push_bit 16 (mask 8) OR
    push_bit 24 (mask 8) OR push_bit 32 (mask 8) OR push_bit 40 (mask 8) OR
    push_bit 48 (mask 8) OR push_bit 56 (mask 8) :: u64) = - 1"
  by (simp add: mask_eq_exp_minus_1)

lemma bytes32_join:
  "(push_bit 0 (ucast (ucast (v::u32) :: u8)) OR
    push_bit 8 (ucast (ucast (drop_bit 8 v) :: u8)) OR
    push_bit 16 (ucast (ucast (drop_bit 16 v) :: u8)) OR
    push_bit 24 (ucast (ucast (drop_bit 24 v) :: u8)) :: u32) = v"
proof -
  have "(v AND push_bit 0 (mask 8)) OR (v AND push_bit 8 (mask 8)) OR
        (v AND push_bit 16 (mask 8)) OR (v AND push_bit 24 (mask 8)) = v"
    unfolding bit.conj_disj_distrib [symmetric] masks32 by simp
  then show ?thesis
    using byte32 [of 0 v] byte32 [of 8 v] byte32 [of 16 v] byte32 [of 24 v]
    by (simp only: drop_bit_0 id_apply)
qed

lemma bytes64_join:
  "(push_bit 0 (ucast (ucast (v::u64) :: u8)) OR
    push_bit 8 (ucast (ucast (drop_bit 8 v) :: u8)) OR
    push_bit 16 (ucast (ucast (drop_bit 16 v) :: u8)) OR
    push_bit 24 (ucast (ucast (drop_bit 24 v) :: u8)) OR
    push_bit 32 (ucast (ucast (drop_bit 32 v) :: u8)) OR
    push_bit 40 (ucast (ucast (drop_bit 40 v) :: u8)) OR
    push_bit 48 (ucast (ucast (drop_bit 48 v) :: u8)) OR
    push_bit 56 (ucast (ucast (drop_bit 56 v) :: u8)) :: u64) = v"
proof -
  have "(v AND push_bit 0 (mask 8)) OR (v AND push_bit 8 (mask 8)) OR
        (v AND push_bit 16 (mask 8)) OR (v AND push_bit 24 (mask 8)) OR
        (v AND push_bit 32 (mask 8)) OR (v AND push_bit 40 (mask 8)) OR
        (v AND push_bit 48 (mask 8)) OR (v AND push_bit 56 (mask 8)) = v"
    unfolding bit.conj_disj_distrib [symmetric] masks64 by simp
  then show ?thesis
    using byte64 [of 0 v] byte64 [of 8 v] byte64 [of 16 v] byte64 [of 24 v]
      byte64 [of 32 v] byte64 [of 40 v] byte64 [of 48 v] byte64 [of 56 v]
    by (simp only: drop_bit_0 id_apply)
qed

lemma be32decode_bytes: "be32decode (pre @ be32_bytes v @ post) (length pre) = v"
  using bytes32_join [of v]
  by (simp add: be32decode_def be32_bytes_def nth_append)

lemma be64decode_bytes: "be64decode (pre @ be64_bytes v @ post) (length pre) = v"
  using bytes64_join [of v]
  by (simp add: be64decode_def be64_bytes_def nth_append scast_ucast8)

text \<open>
  C8. \<^verbatim>\<open>be64encode\<close> stores the most significant byte of its argument first: the eight
  bytes it writes at the pointer are the bytes of the value from bits 56..63 down to
  bits 0..7, and for the value 0x123456789ABCDEF0 they are 0x12, 0x34, 0x56, 0x78, 0x9A,
  0xBC, 0xDE, 0xF0.
\<close>

theorem be64encode_msb_first:
  assumes "p + 8 \<le> length mem"
  shows "take 8 (drop p (be64encode val mem p)) =
           [ucast (drop_bit 56 val), ucast (drop_bit 48 val), ucast (drop_bit 40 val),
            ucast (drop_bit 32 val), ucast (drop_bit 24 val), ucast (drop_bit 16 val),
            ucast (drop_bit 8 val), ucast val] \<and>
         take 8 (drop p (be64encode 0x123456789ABCDEF0 mem p)) =
           [0x12, 0x34, 0x56, 0x78, 0x9A, 0xBC, 0xDE, 0xF0]"
proof -
  have "take 8 (drop p (be64encode v mem p)) = be64_bytes v" for v
    using assms take_drop_store [of p "be64_bytes v" mem]
    by (simp add: be64encode_store)
  then show ?thesis
    by (simp add: be64_bytes_def)
qed

theorem be64encode_msb_first_witness:
  "0 + 8 \<le> length (replicate 8 (0::u8)) \<and>
   take 8 (drop 0 (be64encode 0x0102030405060708 (replicate 8 0) 0)) = [1, 2, 3, 4, 5, 6, 7, 8]"
proof -
  have h: "0 + 8 \<le> length (replicate 8 (0::u8))" by simp
  show ?thesis
    using h be64encode_msb_first [OF h, of "0x0102030405060708"] by simp
qed

subsection \<open>Byte buffer\<close>

text \<open>
  As long as the position and the sizes involved stay below \<open>2^32\<close>, the 32-bit
  position and the 32-bit counts behave as the natural numbers they stand for.
\<close>

lemma unat_of_nat32: "n < 2 ^ 32 \<Longrightarrow> unat (word_of_nat n :: u32) = n"
  by (simp add: unat_of_nat)

lemma unat_add_nat: "unat (w::u32) + n < 2 ^ 32 \<Longrightarrow> unat (w + word_of_nat n) = unat w + n"
proof -
  assume a: "unat w + n < 2 ^ 32"
  then have "unat (word_of_nat n :: u32) = n" by (simp add: unat_of_nat32)
  with a show ?thesis
    using unat_add_lem [of w "word_of_nat n"] by simp
qed

lemma unat_add_1: "unat (w::u32) + 1 < 2 ^ 32 \<Longrightarrow> unat (w + 1) = unat w + 1"
  using unat_add_nat [of w 1] by simp

lemma unat_add_4: "unat (w::u32) + 4 < 2 ^ 32 \<Longrightarrow> unat (w + 4) = unat w + 4"
  using unat_add_nat [of w 4] by simp

lemma store_Nil [simp]: "store mem p [] = mem"
  by (simp add: store_def)

lemma store_Cons:
  "p < length mem \<Longrightarrow> store (mem[p := c]) (Suc p) cs = store mem p (c # cs)"
  by (simp add: store_def take_Suc_conv_app_nth)

lemma store_store_append:
  "p + length as \<le> length mem \<Longrightarrow>
   store (store mem p as @ zs) (p + length as) bs = store (mem @ zs) p (as @ bs)"
  by (simp add: store_def ac_simps)

lemma byte_char [simp]: "char_of_byte (byte_of_char c) = c"
  by (simp add: char_of_byte_def byte_of_char_def unat_of_nat)

lemma writeU64_store:
  "unat (pos b) \<le> length (buf b) \<Longrightarrow>
   writeU64 v b = Inr \<lparr>buf = store (buf b @ replicate 8 0) (unat (pos b)) (be64_bytes v),
                       pos = pos b + 8\<rparr>"
  by (simp add: writeU64_def be64encode_store)

lemma writeUint_store:
  "unat (pos b) \<le> length (buf b) \<Longrightarrow>
   writeUint v b = Inr \<lparr>buf = store (buf b @ replicate 4 0) (unat (pos b)) (be32_bytes v),
                        pos = pos b + 4\<rparr>"
  by (simp add: writeUint_def be32encode_store)

lemma writeBool_store:
  "unat (pos b) \<le> length (buf b) \<Longrightarrow>
   writeBool v b = Inr \<lparr>buf = store (buf b @ replicate 1 0) (unat (pos b)) [if v then 1 else 0],
                        pos = pos b + 1\<rparr>"
  by (simp add: writeBool_def store_single)

lemma writeString_loop_store:
  "k = sz - i \<Longrightarrow> i \<le> sz \<Longrightarrow> sz \<le> length val \<Longrightarrow> unat (pos b) + k \<le> length (buf b) \<Longrightarrow>
   unat (pos b) + k < 2 ^ 32 \<Longrightarrow>
   writeString_loop val i sz b =
     Inr \<lparr>buf = store (buf b) (unat (pos b)) (map byte_of_char (take k (drop i val))),
          pos = pos b + word_of_nat k\<rparr>"
proof (induction k arbitrary: i b)
  case 0
  then show ?case by (subst writeString_loop.simps) simp
next
  case (Suc k)
  let ?p = "unat (pos b)"
  let ?b1 = "\<lparr>buf = (buf b)[?p := byte_of_char (val ! i)], pos = pos b + 1\<rparr>"
  from Suc.prems have i: "i < sz" "i < length val" "?p < length (buf b)" by simp_all
  have p1: "unat (pos b + 1) = ?p + 1"
    using Suc.prems by (intro unat_add_1) simp
  have step: "writeString_loop val i sz b = writeString_loop val (Suc i) sz ?b1"
    using i by (simp add: writeString_loop.simps [of val i sz b])
  have "writeString_loop val (Suc i) sz ?b1 =
     Inr \<lparr>buf = store (buf ?b1) (unat (pos ?b1)) (map byte_of_char (take k (drop (Suc i) val))),
          pos = pos ?b1 + word_of_nat k\<rparr>"
    using Suc.prems p1 by (intro Suc.IH) simp_all
  moreover have "take (Suc k) (drop i val) = val ! i # take k (drop (Suc i) val)"
    using i by (simp add: take_Suc_conv_app_nth flip: Cons_nth_drop_Suc)
  ultimately show ?case
    using step p1 i by (simp add: store_Cons)
qed

lemma writeString_store:
  assumes "unat (pos b) \<le> length (buf b)" "unat (pos b) + 4 + length s < 2 ^ 32"
  shows "writeString s b =
     Inr \<lparr>buf = store (buf b @ replicate (4 + length s) 0) (unat (pos b))
                  (be32_bytes (word_of_nat (length s)) @ map byte_of_char s),
          pos = pos b + 4 + word_of_nat (length s)\<rparr>"
proof -
  let ?p = "unat (pos b)"
  let ?n = "length s"
  let ?sz = "word_of_nat ?n :: u32"
  let ?b1 = "\<lparr>buf = store (buf b @ replicate 4 0) ?p (be32_bytes ?sz), pos = pos b + 4\<rparr>"
  let ?b2 = "?b1\<lparr>buf := buf ?b1 @ replicate ?n 0\<rparr>"
  have sz: "unat ?sz = ?n" using assms by (intro unat_of_nat32) simp
  have p4: "unat (pos b + 4) = ?p + 4" using assms by (intro unat_add_4) simp
  have w: "writeUint ?sz b = Inr ?b1" using assms by (simp add: writeUint_store)
  have "writeString_loop s 0 ?n ?b2 =
     Inr \<lparr>buf = store (buf ?b2) (unat (pos ?b2)) (map byte_of_char (take ?n (drop 0 s))),
          pos = pos ?b2 + word_of_nat ?n\<rparr>"
    using assms p4 by (intro writeString_loop_store) (simp_all add: length_store)
  moreover have "store (buf ?b2) (unat (pos ?b2)) (map byte_of_char s) =
      store (buf b @ replicate (4 + ?n) 0) ?p (be32_bytes ?sz @ map byte_of_char s)"
    using assms p4 store_store_append [of ?p "be32_bytes ?sz" "buf b @ replicate 4 0" "replicate ?n 0" "map byte_of_char s"]
    by (simp add: replicate_add)
  ultimately show ?thesis
    using w sz by (simp add: writeString_def Let_def)
qed

lemma writeBuffer_store:
  assumes "unat (pos b) \<le> length (buf b)" "length (buf nested) < 2 ^ 32"
  shows "writeBuffer nested b =
     Inr \<lparr>buf = store (buf b @ replicate 4 0) (unat (pos b))
                  (be32_bytes (word_of_nat (length (buf nested)))) @ buf nested,
          pos = pos b + 4 + word_of_nat (length (buf nested))\<rparr>"
  using assms
  by (simp add: writeBuffer_def writeUint_store ByteBuffer_size_def ByteBuffer_data_def unat_of_nat32)

lemma readUint_bytes:
  "buf b = pre @ be32_bytes v @ post \<Longrightarrow> unat (pos b) = length pre \<Longrightarrow>
   readUint b = Inr (v, b\<lparr>pos := pos b + 4\<rparr>)"
  by (simp add: readUint_def be32decode_bytes)

lemma readU64_bytes:
  "buf b = pre @ be64_bytes v @ post \<Longrightarrow> unat (pos b) = length pre \<Longrightarrow>
   readU64 b = Inr (v, b\<lparr>pos := pos b + 8\<rparr>)"
  by (simp add: readU64_def be64decode_bytes)

lemma readInt_bytes:
  "buf b = pre @ be32_bytes v @ post \<Longrightarrow> unat (pos b) = length pre \<Longrightarrow>
   readInt b = Inr (sint v, b\<lparr>pos := pos b + 4\<rparr>)"
  by (simp add: readInt_def readUint_bytes)

lemma readBool_bytes:
  "buf b = pre @ x # post \<Longrightarrow> unat (pos b) = length pre \<Longrightarrow>
   readBool b = Inr (x \<noteq> 0, b\<lparr>pos := pos b + 1\<rparr>)"
  by (simp add: readBool_def)

lemma readString_loop_bytes:
  "buf b = pre @ map byte_of_char s @ post \<Longrightarrow> unat (pos b) = length pre \<Longrightarrow>
   length pre + length s < 2 ^ 32 \<Longrightarrow>
   readString_loop (length s) out b = Inr (out @ s, b\<lparr>pos := pos b + word_of_nat (length s)\<rparr>)"
proof (induction s arbitrary: pre out b)
  case Nil
  then show ?case by simp
next
  case (Cons c cs)
  let ?b1 = "b\<lparr>pos := pos b + 1\<rparr>"
  have p1: "unat (pos b + 1) = length pre + 1"
    using Cons.prems unat_add_1 [of "pos b"] by simp
  have "readString_loop (length cs) (out @ [c]) ?b1 =
          Inr ((out @ [c]) @ cs, ?b1\<lparr>pos := pos ?b1 + word_of_nat (length cs)\<rparr>)"
    using Cons.prems p1 by (intro Cons.IH [of _ "pre @ [byte_of_char c]"]) simp_all
  then show ?case
    using Cons.prems by (simp add: nth_append add.assoc)
qed

lemma readString_bytes:
  assumes "buf b = pre @ be32_bytes (word_of_nat (length s)) @ map byte_of_char s @ post"
    and "unat (pos b) = length pre" and "length pre + 4 + length s < 2 ^ 32"
  shows "readString out b = Inr (out @ s, b\<lparr>pos := pos b + 4 + word_of_nat (length s)\<rparr>)"
proof -
  let ?b1 = "b\<lparr>pos := pos b + 4\<rparr>"
  have sz: "unat (word_of_nat (length s) :: u32) = length s"
    using assms by (intro unat_of_nat32) simp
  have p4: "unat (pos b + 4) = length pre + 4"
    using assms unat_add_4 [of "pos b"] by simp
  have "readString_loop (length s) out ?b1 =
          Inr (out @ s, ?b1\<lparr>pos := pos ?b1 + word_of_nat (length s)\<rparr>)"
    using assms p4
    by (intro readString_loop_bytes [of _ "pre @ be32_bytes (word_of_nat (length s))" _ post]) simp_all
  then show ?thesis
    using assms sz by (simp add: readString_def readUint_bytes)
qed

lemma readRset_loop_bytes:
  "buf b = pre @ concat (map be32_bytes ws) @ post \<Longrightarrow> unat (pos b) = length pre \<Longrightarrow>
   length pre + 4 * length ws < 2 ^ 32 \<Longrightarrow>
   readRset_loop (length ws) val b =
     Inr (val \<union> sint ` set ws, b\<lparr>pos := pos b + word_of_nat (4 * length ws)\<rparr>)"
proof (induction ws arbitrary: pre val b)
  case Nil
  then show ?case by simp
next
  case (Cons w ws)
  let ?b1 = "b\<lparr>pos := pos b + 4\<rparr>"
  have p4: "unat (pos b + 4) = length pre + 4"
    using Cons.prems unat_add_4 [of "pos b"] by simp
  have r: "readInt b = Inr (sint w, ?b1)"
    using Cons.prems by (intro readInt_bytes [of _ pre _ "concat (map be32_bytes ws) @ post"]) simp_all
  have "readRset_loop (length ws) (insert (sint w) val) ?b1 =
          Inr (insert (sint w) val \<union> sint ` set ws,
               ?b1\<lparr>pos := pos ?b1 + word_of_nat (4 * length ws)\<rparr>)"
    using Cons.prems p4 by (intro Cons.IH [of _ "pre @ be32_bytes w"]) simp_all
  then show ?case
    using r by (simp add: add.assoc)
qed

lemma readRset_bytes:
  assumes "buf b = pre @ be32_bytes (word_of_nat (length ws)) @ concat (map be32_bytes ws) @ post"
    and "unat (pos b) = length pre" and "length pre + 4 + 4 * length ws < 2 ^ 32"
  shows "readRset val b =
     Inr (val \<union> sint ` set ws, b\<lparr>pos := pos b + 4 + word_of_nat (4 * length ws)\<rparr>)"
proof -
  let ?b1 = "b\<lparr>pos := pos b + 4\<rparr>"
  have sz: "unat (word_of_nat (length ws) :: u32) = length ws"
    using assms by (intro unat_of_nat32) simp
  have p4: "unat (pos b + 4) = length pre + 4"
    using assms unat_add_4 [of "pos b"] by simp
  have "readRset_loop (length ws) val ?b1 =
          Inr (val \<union> sint ` set ws, ?b1\<lparr>pos := pos ?b1 + word_of_nat (4 * length ws)\<rparr>)"
    using assms p4
    by (intro readRset_loop_bytes [of _ "pre @ be32_bytes (word_of_nat (length ws))" _ post]) simp_all
  then show ?thesis
    using assms sz by (simp add: readRset_def readUint_bytes)
qed

lemma readBuffer_bytes:
  assumes "buf b = pre @ be32_bytes (word_of_nat (length cs)) @ cs @ post"
    and "unat (pos b) = length pre" and "length pre + 4 + length cs < 2 ^ 32"
  shows "readBuffer out b =
     Inr (\<lparr>buf = cs, pos = 0\<rparr>, b\<lparr>pos := pos b + 4 + word_of_nat (length cs)\<rparr>)"
proof -
  have sz: "unat (word_of_nat (length cs) :: u32) = length cs"
    using assms by (intro unat_of_nat32) simp
  have p4: "unat (pos b + 4) = length pre + 4"
    using assms unat_add_4 [of "pos b"] by simp
  show ?thesis
    using assms sz p4
    by (simp add: readBuffer_def readUint_bytes [of b pre _ "cs @ post"] load_def ByteBuffer_clear_def)
qed

lemma replicate_4: "replicate 4 x = [x, x, x, x]"
  by (simp add: eval_nat_numeral)

lemma replicate_6: "replicate 6 x = [x, x, x, x, x, x]"
  by (simp add: eval_nat_numeral)

lemma sint_word_of_int32: "- (2 ^ 31) \<le> i \<Longrightarrow> i < 2 ^ 31 \<Longrightarrow> sint (word_of_int i :: u32) = i"
  by (simp add: signed_of_int signed_take_bit_int_eq_self)

text \<open>
  C1, as stated, fails: every write stores its encoding at the position, not at the
  tail. After \<^verbatim>\<open>clear(); writeBool(true)\<close> the content is the byte 1; after
  \<^verbatim>\<open>setPos(0); writeBool(false)\<close> the content is 0, 0: the existing byte has been
  overwritten, and the byte added at the tail is the zero of \<^verbatim>\<open>resize\<close>.
\<close>

theorem writes_store_at_position_counterexample:
  "writeBool False (setPos 0 \<lparr>buf = [1], pos = 1\<rparr>) = Inr \<lparr>buf = [0, 0], pos = 1\<rparr> \<and>
   take 1 (buf \<lparr>buf = [0, 0], pos = 1\<rparr>) \<noteq> buf \<lparr>buf = [1], pos = 1\<rparr>"
  by (simp add: writeBool_def setPos_def)

text \<open>
  C1, amended. For a buffer whose position has been set with \<^verbatim>\<open>setPos\<close> to a value
  \<open>q\<close> not above its content length, every write grows the content at the tail by the
  written size, the new bytes being zero, and advances the position by the written size.
  \<^verbatim>\<open>writeU64\<close>, \<^verbatim>\<open>writeUint\<close>, \<^verbatim>\<open>writeInt\<close>, \<^verbatim>\<open>writeBool\<close> and \<^verbatim>\<open>writeString\<close> then
  store the encoding in place from \<open>q\<close> on: the bytes before \<open>q\<close> and the bytes after
  the encoding are unchanged, the bytes under it are overwritten. \<^verbatim>\<open>writeBuffer\<close>, for
  a nested buffer other than the buffer written to, stores its 4-byte count in place at
  \<open>q\<close> and appends the nested content at the tail. The
  string's encoding has to end below \<open>2^32\<close> and the nested buffer has to be shorter
  than \<open>2^32\<close> bytes.
\<close>

theorem writes_store_at_position:
  assumes "unat q \<le> length (buf b)" and "unat q + 4 + length s < 2 ^ 32"
    and "length (buf nested) < 2 ^ 32"
  shows
    "writeU64 v64 (setPos q b) =
       Inr \<lparr>buf = store (buf b @ replicate 8 0) (unat q) (be64_bytes v64), pos = q + 8\<rparr> \<and>
     writeUint v32 (setPos q b) =
       Inr \<lparr>buf = store (buf b @ replicate 4 0) (unat q) (be32_bytes v32), pos = q + 4\<rparr> \<and>
     writeInt i (setPos q b) =
       Inr \<lparr>buf = store (buf b @ replicate 4 0) (unat q) (be32_bytes (word_of_int i)),
            pos = q + 4\<rparr> \<and>
     writeBool t (setPos q b) =
       Inr \<lparr>buf = store (buf b @ replicate 1 0) (unat q) [if t then 1 else 0], pos = q + 1\<rparr> \<and>
     writeString s (setPos q b) =
       Inr \<lparr>buf = store (buf b @ replicate (4 + length s) 0) (unat q)
                    (be32_bytes (word_of_nat (length s)) @ map byte_of_char s),
            pos = q + 4 + word_of_nat (length s)\<rparr> \<and>
     writeBuffer nested (setPos q b) =
       Inr \<lparr>buf = store (buf b @ replicate 4 0) (unat q)
                    (be32_bytes (word_of_nat (length (buf nested)))) @ buf nested,
            pos = q + 4 + word_of_nat (length (buf nested))\<rparr>"
proof -
  let ?b = "setPos q b"
  have b: "unat (pos ?b) \<le> length (buf ?b)" "pos ?b = q" "buf ?b = buf b"
    using assms(1) by (simp_all add: setPos_def)
  have 1: "writeU64 v64 ?b =
       Inr \<lparr>buf = store (buf b @ replicate 8 0) (unat q) (be64_bytes v64), pos = q + 8\<rparr>"
    using writeU64_store [OF b(1)] b by simp
  have 2: "writeUint v ?b =
       Inr \<lparr>buf = store (buf b @ replicate 4 0) (unat q) (be32_bytes v), pos = q + 4\<rparr>" for v
    using writeUint_store [OF b(1)] b by simp
  have 3: "writeBool t ?b =
       Inr \<lparr>buf = store (buf b @ replicate 1 0) (unat q) [if t then 1 else 0], pos = q + 1\<rparr>"
    using writeBool_store [OF b(1)] b by simp
  have 4: "writeString s ?b =
       Inr \<lparr>buf = store (buf b @ replicate (4 + length s) 0) (unat q)
                    (be32_bytes (word_of_nat (length s)) @ map byte_of_char s),
            pos = q + 4 + word_of_nat (length s)\<rparr>"
    using writeString_store [of ?b s] b assms(2) by simp
  have 5: "writeBuffer nested ?b =
       Inr \<lparr>buf = store (buf b @ replicate 4 0) (unat q)
                    (be32_bytes (word_of_nat (length (buf nested)))) @ buf nested,
            pos = q + 4 + word_of_nat (length (buf nested))\<rparr>"
    using writeBuffer_store [of ?b nested] b assms(3) by simp
  show ?thesis
    using 1 2 3 4 5 by (simp add: writeInt_def)
qed

theorem writes_store_at_position_witness:
  "unat (0::u32) \<le> length (buf \<lparr>buf = [1, 2, 3, 4, 5, 6], pos = 6\<rparr>) \<and>
   writeUint 0x0A0B0C0D (setPos 0 \<lparr>buf = [1, 2, 3, 4, 5, 6], pos = 6\<rparr>) =
     Inr \<lparr>buf = [0x0A, 0x0B, 0x0C, 0x0D, 5, 6, 0, 0, 0, 0], pos = 4\<rparr> \<and>
   writeString ''hi'' (setPos 0 \<lparr>buf = [1, 2, 3, 4, 5, 6], pos = 6\<rparr>) =
     Inr \<lparr>buf = [0, 0, 0, 2, 0x68, 0x69, 0, 0, 0, 0, 0, 0], pos = 6\<rparr> \<and>
   writeBuffer \<lparr>buf = [7, 8], pos = 1\<rparr> (setPos 0 \<lparr>buf = [1, 2, 3, 4, 5, 6], pos = 6\<rparr>) =
     Inr \<lparr>buf = [0, 0, 0, 2, 5, 6, 0, 0, 0, 0, 7, 8], pos = 6\<rparr>"
proof -
  let ?b = "\<lparr>buf = [1, 2, 3, 4, 5, 6 :: u8], pos = 6\<rparr>"
  have h: "unat (0::u32) \<le> length (buf ?b)" "unat (0::u32) + 4 + length ''hi'' < 2 ^ 32"
    "length (buf \<lparr>buf = [7, 8 :: u8], pos = 1\<rparr>) < 2 ^ 32"
    by simp_all
  show ?thesis
    using writes_store_at_position [OF h, of 0 "0x0A0B0C0D" 0 False]
    by (simp add: store_def be32_bytes_def byte_of_char_def replicate_4 replicate_6)
qed

text \<open>
  C2, as stated, fails for strings that the 32-bit count cannot describe: for a string
  of \<open>2^32\<close> characters \<^verbatim>\<open>uint32_t size = val.size()\<close> is 0, so \<^verbatim>\<open>writeString\<close> writes
  the count 0 and no character, and \<^verbatim>\<open>readString\<close> yields the empty string.
\<close>

theorem primitive_round_trip_counterexample:
  "writeString (replicate (2 ^ 32) CHR ''a'') (ByteBuffer_clear ByteBuffer_new) =
     Inr \<lparr>buf = [0, 0, 0, 0], pos = 4\<rparr> \<and>
   readString [] (setPos 0 \<lparr>buf = [0, 0, 0, 0], pos = 4\<rparr>) =
     Inr ([], \<lparr>buf = [0, 0, 0, 0], pos = 4\<rparr>) \<and>
   [] \<noteq> replicate (2 ^ 32) CHR ''a''"
proof -
  have z: "(word_of_nat (length (replicate (2 ^ 32) CHR ''a'')) :: u32) = 0"
    by simp
  have w: "writeString (replicate (2 ^ 32) CHR ''a'') (ByteBuffer_clear ByteBuffer_new) =
     Inr \<lparr>buf = [0, 0, 0, 0], pos = 4\<rparr>"
    unfolding writeString_def z
    by (simp add: writeUint_def ByteBuffer_clear_def be32encode_def writeString_loop.simps
        replicate_4)
  have r: "readString [] (setPos 0 \<lparr>buf = [0, 0, 0, 0], pos = 4\<rparr>) =
     Inr ([], \<lparr>buf = [0, 0, 0, 0], pos = 4\<rparr>)"
    by (simp add: readString_def readUint_def setPos_def be32decode_def)
  have "[] \<noteq> replicate (2 ^ 32) CHR ''a''" by simp
  with w r show ?thesis by simp
qed

text \<open>
  C2, amended. On a freshly cleared buffer, writing a value, setting the position to 0
  and reading it back yields the value written, for every 64-bit unsigned value, every
  32-bit unsigned value, every \<^verbatim>\<open>int\<close> (from \<open>- 2^31\<close> to \<open>2^31 - 1\<close>), every
  boolean, and every string shorter than \<open>2^32 - 4\<close> characters read into an empty
  output string.
\<close>

theorem primitive_round_trip:
  assumes "- (2 ^ 31) \<le> i" and "i < 2 ^ 31" and "length s + 4 < 2 ^ 32"
  shows
    "(\<exists>b1 b2. writeU64 v64 (ByteBuffer_clear b) = Inr b1 \<and> readU64 (setPos 0 b1) = Inr (v64, b2)) \<and>
     (\<exists>b1 b2. writeUint v32 (ByteBuffer_clear b) = Inr b1 \<and> readUint (setPos 0 b1) = Inr (v32, b2)) \<and>
     (\<exists>b1 b2. writeInt i (ByteBuffer_clear b) = Inr b1 \<and> readInt (setPos 0 b1) = Inr (i, b2)) \<and>
     (\<exists>b1 b2. writeBool t (ByteBuffer_clear b) = Inr b1 \<and> readBool (setPos 0 b1) = Inr (t, b2)) \<and>
     (\<exists>b1 b2. writeString s (ByteBuffer_clear b) = Inr b1 \<and>
        readString [] (setPos 0 b1) = Inr (s, b2))"
proof -
  let ?c = "ByteBuffer_clear b"
  have c: "unat (pos ?c) \<le> length (buf ?c)" "pos ?c = 0" "buf ?c = []"
    by (simp_all add: ByteBuffer_clear_def)
  have 1: "\<exists>b1 b2. writeU64 v64 ?c = Inr b1 \<and> readU64 (setPos 0 b1) = Inr (v64, b2)"
    using writeU64_store [OF c(1), of v64] c
      readU64_bytes [of "setPos 0 \<lparr>buf = be64_bytes v64, pos = 8\<rparr>" "[]" v64 "[]"]
    by (simp add: store_def setPos_def)
  have 2: "\<exists>b1 b2. writeUint v ?c = Inr b1 \<and> readUint (setPos 0 b1) = Inr (v, b2)" for v
    using writeUint_store [OF c(1), of v] c
      readUint_bytes [of "setPos 0 \<lparr>buf = be32_bytes v, pos = 4\<rparr>" "[]" v "[]"]
    by (simp add: store_def setPos_def)
  have 3: "\<exists>b1 b2. writeInt i ?c = Inr b1 \<and> readInt (setPos 0 b1) = Inr (i, b2)"
    using 2 [of "word_of_int i"] sint_word_of_int32 [OF assms(1,2)]
    by (auto simp add: writeInt_def readInt_def)
  have 4: "\<exists>b1 b2. writeBool t ?c = Inr b1 \<and> readBool (setPos 0 b1) = Inr (t, b2)"
    by (simp add: writeBool_def readBool_def setPos_def ByteBuffer_clear_def)
  have 5: "\<exists>b1 b2. writeString s ?c = Inr b1 \<and> readString [] (setPos 0 b1) = Inr (s, b2)"
    using writeString_store [OF c(1), of s] c assms(3)
      readString_bytes [of "setPos 0 \<lparr>buf = be32_bytes (word_of_nat (length s)) @ map byte_of_char s,
         pos = 4 + word_of_nat (length s)\<rparr>" "[]" s "[]" "[]"]
    by (simp add: store_def setPos_def)
  show ?thesis using 1 2 3 4 5 by blast
qed

theorem primitive_round_trip_witness:
  "(\<exists>b1 b2. writeInt (- 12345) (ByteBuffer_clear ByteBuffer_new) = Inr b1 \<and>
      readInt (setPos 0 b1) = Inr (- 12345, b2)) \<and>
   (\<exists>b1 b2. writeString ''Hello, WireCC!'' (ByteBuffer_clear ByteBuffer_new) = Inr b1 \<and>
      readString [] (setPos 0 b1) = Inr (''Hello, WireCC!'', b2))"
proof -
  have h: "- (2 ^ 31) \<le> (- 12345 :: int)" "(- 12345 :: int) < 2 ^ 31"
    "length ''Hello, WireCC!'' + 4 < 2 ^ 32"
    by simp_all
  from primitive_round_trip [OF h] show ?thesis by blast
qed

text \<open>
  C3, as stated, fails for a nested buffer that the 32-bit count cannot describe: for a
  nested buffer of \<open>2^32\<close> bytes \<^verbatim>\<open>b.size()\<close> is 0, so \<^verbatim>\<open>writeBuffer\<close> appends the
  count 0 and none of the content.
\<close>

theorem nested_buffer_round_trip_counterexample:
  "unat (pos ByteBuffer_new) = length (buf ByteBuffer_new) \<and>
   writeBuffer \<lparr>buf = replicate (2 ^ 32) 0, pos = 0\<rparr> ByteBuffer_new =
     Inr \<lparr>buf = [0, 0, 0, 0], pos = 4\<rparr> \<and>
   drop 4 (buf \<lparr>buf = [0, 0, 0, 0], pos = 4\<rparr>) \<noteq> buf \<lparr>buf = replicate (2 ^ 32) 0, pos = 0\<rparr>"
proof -
  have z: "ByteBuffer_size \<lparr>buf = replicate (2 ^ 32) 0, pos = 0\<rparr> = 0"
    by (simp add: ByteBuffer_size_def)
  have "writeBuffer \<lparr>buf = replicate (2 ^ 32) 0, pos = 0\<rparr> ByteBuffer_new =
     Inr \<lparr>buf = [0, 0, 0, 0], pos = 4\<rparr>"
    unfolding writeBuffer_def z
    by (simp add: writeUint_def ByteBuffer_new_def be32encode_def replicate_4)
  then show ?thesis
    by (simp add: ByteBuffer_new_def)
qed

text \<open>
  C3, amended. For an outer buffer whose position equals its content length and a
  nested buffer other than the outer one, at any position of its own, such that the outer length plus 4 plus the
  nested length is below \<open>2^32\<close>: \<^verbatim>\<open>writeBuffer\<close> appends the 4-byte big-endian count of
  the nested buffer's whole content followed by a copy of that whole content, and leaves
  the position at the new end; \<^verbatim>\<open>readBuffer\<close> at the place of the write then yields an
  output buffer with the nested buffer's whole content and the position 0, whatever the
  output buffer held before, and moves the outer position past the bytes consumed.
\<close>

theorem nested_buffer_round_trip:
  assumes "unat (pos outer) = length (buf outer)"
    and "length (buf outer) + 4 + length (buf nested) < 2 ^ 32"
  shows "\<exists>cnt b1 out1 b2.
           unat cnt = length (buf nested) \<and>
           writeBuffer nested outer = Inr b1 \<and>
           buf b1 = buf outer @ be32_bytes cnt @ buf nested \<and>
           unat (pos b1) = length (buf b1) \<and>
           readBuffer out (setPos (pos outer) b1) = Inr (out1, b2) \<and>
           buf out1 = buf nested \<and> pos out1 = 0 \<and>
           unat (pos b2) = length (buf outer) + 4 + length (buf nested)"
proof -
  let ?n = "length (buf nested)"
  let ?cnt = "word_of_nat ?n :: u32"
  let ?b1 = "\<lparr>buf = buf outer @ be32_bytes ?cnt @ buf nested, pos = pos outer + 4 + ?cnt\<rparr>"
  have cnt: "unat ?cnt = ?n"
    using assms(2) by (intro unat_of_nat32) simp
  have "unat (pos outer + word_of_nat (4 + ?n)) = unat (pos outer) + (4 + ?n)"
    using assms by (intro unat_add_nat) simp
  then have p: "unat (pos outer + 4 + ?cnt) = length (buf outer) + 4 + ?n"
    using assms(1) by (simp add: add.assoc)
  have w: "writeBuffer nested outer = Inr ?b1"
    using assms writeBuffer_store [of outer nested] by (simp add: store_def)
  have r: "readBuffer out (setPos (pos outer) ?b1) =
      Inr (\<lparr>buf = buf nested, pos = 0\<rparr>,
           (setPos (pos outer) ?b1)\<lparr>pos := pos (setPos (pos outer) ?b1) + 4 + ?cnt\<rparr>)"
    using assms
    by (intro readBuffer_bytes [of _ "buf outer" _ "[]"]) (simp_all add: setPos_def)
  show ?thesis
    using cnt w r p by (intro exI [of _ ?cnt]) (simp add: setPos_def)
qed

theorem nested_buffer_round_trip_witness:
  "\<exists>cnt b1 out1 b2.
     unat cnt = length (buf \<lparr>buf = [7, 8, 9], pos = 2\<rparr>) \<and>
     writeBuffer \<lparr>buf = [7, 8, 9], pos = 2\<rparr> \<lparr>buf = [1], pos = 1\<rparr> = Inr b1 \<and>
     buf b1 = buf \<lparr>buf = [1], pos = 1\<rparr> @ be32_bytes cnt @ buf \<lparr>buf = [7, 8, 9], pos = 2\<rparr> \<and>
     unat (pos b1) = length (buf b1) \<and>
     readBuffer \<lparr>buf = [5, 5], pos = 1\<rparr> (setPos (pos \<lparr>buf = [1], pos = 1\<rparr>) b1) = Inr (out1, b2) \<and>
     buf out1 = buf \<lparr>buf = [7, 8, 9], pos = 2\<rparr> \<and> pos out1 = 0 \<and>
     unat (pos b2) = length (buf \<lparr>buf = [1], pos = 1\<rparr>) + 4 + length (buf \<lparr>buf = [7, 8, 9], pos = 2\<rparr>)"
proof -
  have h: "unat (pos \<lparr>buf = [1::u8], pos = 1\<rparr>) = length (buf \<lparr>buf = [1::u8], pos = 1\<rparr>)"
    "length (buf \<lparr>buf = [1::u8], pos = 1\<rparr>) + 4 + length (buf \<lparr>buf = [7, 8, 9 :: u8], pos = 2\<rparr>) < 2 ^ 32"
    by simp_all
  show ?thesis
    by (rule nested_buffer_round_trip [OF h])
qed

text \<open>
  C9. \<^verbatim>\<open>readString\<close> and \<^verbatim>\<open>readRset\<close> add to their output argument. For a buffer whose
  position is at a count followed by that many characters, \<^verbatim>\<open>readString\<close> yields the
  characters the output held, followed by the decoded ones; for a buffer whose position
  is at a count followed by that many 32-bit values, \<^verbatim>\<open>readRset\<close> yields the union of
  the set the output held and the decoded integers. The encoding ends below \<open>2^32\<close>.
\<close>

theorem reads_accumulate:
  assumes "buf b = pre @ be32_bytes (word_of_nat (length s)) @ map byte_of_char s @ post"
    and "unat (pos b) = length pre" and "length pre + 4 + length s < 2 ^ 32"
    and "buf r = pre' @ be32_bytes (word_of_nat (length ws)) @ concat (map be32_bytes ws) @ post'"
    and "unat (pos r) = length pre'" and "length pre' + 4 + 4 * length ws < 2 ^ 32"
  shows "readString out b = Inr (out @ s, b\<lparr>pos := pos b + 4 + word_of_nat (length s)\<rparr>) \<and>
         readRset val r =
           Inr (val \<union> sint ` set ws, r\<lparr>pos := pos r + 4 + word_of_nat (4 * length ws)\<rparr>)"
  using readString_bytes [OF assms(1,2,3)] readRset_bytes [OF assms(4,5,6)] by simp

theorem reads_accumulate_witness:
  "readString ''oh '' \<lparr>buf = [9, 0, 0, 0, 2, 0x68, 0x69, 9], pos = 1\<rparr> =
     Inr (''oh hi'', \<lparr>buf = [9, 0, 0, 0, 2, 0x68, 0x69, 9], pos = 7\<rparr>) \<and>
   readRset {1, 10} \<lparr>buf = [0, 0, 0, 2, 0, 0, 0, 5, 0xff, 0xff, 0xff, 0xff], pos = 0\<rparr> =
     Inr ({1, 10, 5, - 1}, \<lparr>buf = [0, 0, 0, 2, 0, 0, 0, 5, 0xff, 0xff, 0xff, 0xff], pos = 12\<rparr>)"
proof -
  let ?b = "\<lparr>buf = [9, 0, 0, 0, 2, 0x68, 0x69, 9 :: u8], pos = 1\<rparr>"
  let ?r = "\<lparr>buf = [0, 0, 0, 2, 0, 0, 0, 5, 0xff, 0xff, 0xff, 0xff :: u8], pos = 0\<rparr>"
  have h: "buf ?b = [9] @ be32_bytes (word_of_nat (length ''hi'')) @ map byte_of_char ''hi'' @ [9]"
    "unat (pos ?b) = length [9 :: u8]" "length [9 :: u8] + 4 + length ''hi'' < 2 ^ 32"
    "buf ?r = [] @ be32_bytes (word_of_nat (length [5, 0xFFFFFFFF :: u32])) @
       concat (map be32_bytes [5, 0xFFFFFFFF :: u32]) @ []"
    "unat (pos ?r) = length ([] :: u8 list)"
    "length ([] :: u8 list) + 4 + 4 * length [5, 0xFFFFFFFF :: u32] < 2 ^ 32"
    by (simp_all add: be32_bytes_def byte_of_char_def)
  show ?thesis
    using reads_accumulate [OF h, of "''oh ''" "{1, 10}"] by auto
qed

subsection \<open>Bitmap\<close>

lemma mask_field_new: "Bitmap_new maxBits = Some b \<Longrightarrow> mask_field b = mask (unat maxBits) \<and> flags b = 0"
  by (auto simp add: Bitmap_new_def mask_eq_exp_minus_1 split: if_splits)

text \<open>
  C10. A bitmap constructed with \<open>maxBits = 0\<close> has the mask 0 and is both empty and
  full right after construction; and any bitmap is both empty and full exactly when its
  mask and its flags are 0.
\<close>

theorem Bitmap_zero_bits:
  "Bitmap_new 0 = Some \<lparr>flags = 0, mask_field = 0\<rparr> \<and>
   isEmpty \<lparr>flags = 0, mask_field = 0\<rparr> \<and> isFull \<lparr>flags = 0, mask_field = 0\<rparr> \<and>
   ((isEmpty b \<and> isFull b) = (mask_field b = 0 \<and> flags b = 0))"
  by (auto simp add: Bitmap_new_def isEmpty_def isFull_def)

lemma within_mask_set:
  assumes "within_mask b" "mask_field b = mask n" "unat bitpos < n" "n < 64"
  shows "\<exists>b1. Bitmap_set bitpos b = Inr b1 \<and> within_mask b1 \<and> mask_field b1 = mask n"
proof -
  have "push_bit (unat bitpos) (1::u64) AND NOT (mask n) = 0"
    using assms(3) by (intro bit_word_eqI) (auto simp add: bit_simps)
  then show ?thesis
    using assms by (simp add: Bitmap_set_def within_mask_def bit.conj_disj_distrib2)
qed

lemma within_mask_unset:
  assumes "within_mask b" "mask_field b = mask n" "unat bitpos < 64"
  shows "\<exists>b1. Bitmap_unset bitpos b = Inr b1 \<and> within_mask b1 \<and> mask_field b1 = mask n"
proof -
  have "(flags b AND x) AND NOT (mask_field b) = (flags b AND NOT (mask_field b)) AND x" for x
    by (simp add: ac_simps)
  then have "(flags b AND x) AND NOT (mask_field b) = 0" for x
    using assms(1) by (simp add: within_mask_def)
  then show ?thesis
    using assms by (simp add: Bitmap_unset_def within_mask_def)
qed

lemma within_mask_clear:
  assumes "mask_field b = mask n"
  shows "within_mask (Bitmap_clear b) \<and> mask_field (Bitmap_clear b) = mask n"
  using assms by (simp add: Bitmap_clear_def within_mask_def)

lemma within_mask_mutate:
  assumes "within_mask b" "mask_field b = mask (unat maxBits)" "unat maxBits < 64" "in_range maxBits m"
  shows "\<exists>b1. mutate m b = Inr b1 \<and> within_mask b1 \<and> mask_field b1 = mask (unat maxBits)"
  using assms within_mask_set [of b "unat maxBits"] within_mask_unset [of b "unat maxBits"] within_mask_clear [of b "unat maxBits"]
  by (cases m) auto

lemma within_mask_mutations:
  assumes "unat maxBits < 64"
  shows "within_mask b \<Longrightarrow> mask_field b = mask (unat maxBits) \<Longrightarrow> \<forall>m \<in> set ms. in_range maxBits m \<Longrightarrow>
    \<exists>bs. mutations ms b = Inr bs \<and> length bs = length ms \<and> (\<forall>b1 \<in> set bs. within_mask b1 \<and> mask_field b1 = mask (unat maxBits))"
proof (induction ms arbitrary: b)
  case Nil
  then show ?case by simp
next
  case (Cons m ms)
  from Cons.prems obtain b1 where b1: "mutate m b = Inr b1" "within_mask b1" "mask_field b1 = mask (unat maxBits)"
    using within_mask_mutate [OF _ _ assms, of b m] by auto
  from Cons.IH [OF b1(2,3)] Cons.prems(3) obtain bs where
    "mutations ms b1 = Inr bs" "length bs = length ms" "\<forall>b1 \<in> set bs. within_mask b1 \<and> mask_field b1 = mask (unat maxBits)"
    by auto
  with b1 show ?case by simp
qed

text \<open>
  C7. The claim is that \<open>flags AND NOT mask = 0\<close> holds after every mutation, \<^verbatim>\<open>set\<close>
  being called with any bit below 64, which is all that \<^verbatim>\<open>set\<close> asserts. \<^verbatim>\<open>set\<close> ORs the
  bit in without masking, where \<^verbatim>\<open>unset\<close> masks: on a bitmap of 8 bits, \<^verbatim>\<open>set(9)\<close>
  leaves the flag 0x200 outside the mask 0xff, \<^verbatim>\<open>unset(9)\<close> does not clear it, and with
  the eight bits of the mask set as well \<^verbatim>\<open>isFull()\<close> is false.
\<close>

theorem Bitmap_set_outside_mask:
  "Bitmap_new 8 = Some \<lparr>flags = 0, mask_field = 0xff\<rparr> \<and>
   Bitmap_set 9 \<lparr>flags = 0, mask_field = 0xff\<rparr> = Inr \<lparr>flags = 0x200, mask_field = 0xff\<rparr> \<and>
   flags \<lparr>flags = 0x200, mask_field = 0xff\<rparr> AND
     NOT (mask_field \<lparr>flags = 0x200, mask_field = 0xff\<rparr>) = 0x200 \<and>
   Bitmap_unset 9 \<lparr>flags = 0x200, mask_field = 0xff\<rparr> =
     Inr \<lparr>flags = 0x200, mask_field = 0xff\<rparr> \<and>
   Bitmap_set 9 \<lparr>flags = 0xff, mask_field = 0xff\<rparr> = Inr \<lparr>flags = 0x2ff, mask_field = 0xff\<rparr> \<and>
   isFull \<lparr>flags = 0x2ff, mask_field = 0xff\<rparr> = False"
  by (simp add: Bitmap_new_def Bitmap_set_def Bitmap_unset_def isFull_def)

text \<open>
  Mutations that stay below \<open>maxBits\<close> keep the flags within the mask: for a bitmap
  whose construction has a result and a sequence in which each \<^verbatim>\<open>set\<close> has a bit below
  \<open>maxBits\<close> and each \<^verbatim>\<open>unset\<close> a bit below 64, every mutation succeeds and
  \<open>flags AND NOT mask = 0\<close> holds after each of them.
\<close>

lemma mutations_below_maxBits:
  assumes "Bitmap_new maxBits = Some b0" and "\<forall>m \<in> set ms. in_range maxBits m"
  shows "\<exists>bs. mutations ms b0 = Inr bs \<and> length bs = length ms \<and>
           (\<forall>b \<in> set bs. flags b AND NOT (mask_field b) = 0 \<and> mask_field b = 2 ^ unat maxBits - 1)"
proof -
  have lt: "unat maxBits < 64" using assms(1) by (simp add: Bitmap_new_def split: if_splits)
  have "within_mask b0" "mask_field b0 = mask (unat maxBits)"
    using mask_field_new [OF assms(1)] by (simp_all add: within_mask_def)
  from within_mask_mutations [OF lt this assms(2)] show ?thesis
    by (simp add: within_mask_def mask_eq_exp_minus_1)
qed

subsection \<open>Random generator\<close>

lemma RandomGenerator_get_nonempty:
  assumes "rg_elems g \<noteq> []"
  shows "RandomGenerator_get r g =
    Inr (rg_elems g ! (r mod length (rg_elems g)),
         g\<lparr>rg_elems := take (r mod length (rg_elems g)) (rg_elems g) @
                        drop (Suc (r mod length (rg_elems g))) (rg_elems g)\<rparr>)"
  using assms by (simp add: RandomGenerator_get_def Let_def)

lemma mset_remove_nth:
  "i < length es \<Longrightarrow> add_mset (es ! i) (mset (take i es @ drop (Suc i) es)) = mset es"
  by (metis append_take_drop_id id_take_nth_drop mset.simps(2) union_code union_mset_add_mset_right mset_append)

lemma RandomGenerator_gets_nonempty:
  "length rs = length (rg_elems g) \<Longrightarrow>
   \<exists>ks g'. RandomGenerator_gets rs g = Inr (ks, g') \<and> mset ks = mset (rg_elems g) \<and>
     rg_elems g' = [] \<and> rg_from g' = rg_from g"
proof (induction rs arbitrary: g)
  case Nil
  then show ?case by simp
next
  case (Cons r rs)
  let ?es = "rg_elems g"
  let ?i = "r mod length ?es"
  let ?g1 = "g\<lparr>rg_elems := take ?i ?es @ drop (Suc ?i) ?es\<rparr>"
  from Cons.prems have ne: "?es \<noteq> []" by auto
  then have i: "?i < length ?es" by simp
  have get: "RandomGenerator_get r g = Inr (?es ! ?i, ?g1)"
    using ne by (rule RandomGenerator_get_nonempty)
  have "length rs = length (rg_elems ?g1)"
    using Cons.prems i by simp
  from Cons.IH [OF this] obtain ks g' where
    ks: "RandomGenerator_gets rs ?g1 = Inr (ks, g')" "mset ks = mset (rg_elems ?g1)"
      "rg_elems g' = []" "rg_from g' = rg_from ?g1"
    by blast
  have "mset (?es ! ?i # ks) = mset ?es"
    using ks(2) mset_remove_nth [OF i] by simp
  with get ks show ?case by simp
qed

lemma RandomGenerator_get_refill:
  assumes "rg_elems g = []" "rg_from g \<noteq> []"
  shows "RandomGenerator_get r g = RandomGenerator_get r (g\<lparr>rg_elems := map fst (rg_from g)\<rparr>)"
  using assms by (simp add: RandomGenerator_get_def Let_def)

lemma RandomGenerator_gets_refill:
  assumes "rg_elems g = []" "rg_from g \<noteq> []" "rs \<noteq> []"
  shows "RandomGenerator_gets rs g = RandomGenerator_gets rs (g\<lparr>rg_elems := map fst (rg_from g)\<rparr>)"
  using assms RandomGenerator_get_refill [OF assms(1,2)] by (cases rs) simp_all

lemma full_pass_from_empty:
  assumes "rg_elems g = []" "rg_from g = pool" "pool \<noteq> []" "distinct (map fst pool)" "length rs = length pool"
  shows "\<exists>ks g'. RandomGenerator_gets rs g = Inr (ks, g') \<and> mset ks = mset (map fst pool) \<and> distinct ks \<and> set ks = fst ` set pool"
proof -
  let ?g = "g\<lparr>rg_elems := map fst (rg_from g)\<rparr>"
  have "rs \<noteq> []" using assms by auto
  then have eq: "RandomGenerator_gets rs g = RandomGenerator_gets rs ?g"
    using assms by (intro RandomGenerator_gets_refill) simp_all
  have "length rs = length (rg_elems ?g)" using assms by simp
  from RandomGenerator_gets_nonempty [OF this] obtain ks g' where
    ks: "RandomGenerator_gets rs ?g = Inr (ks, g')" "mset ks = mset (map fst pool)"
    using assms by auto
  have "distinct ks" using ks(2) assms(4) by (metis mset_eq_imp_distinct_iff)
  moreover have "set ks = fst ` set pool" using ks(2) by (metis mset_eq_setD set_map)
  ultimately show ?thesis using eq ks by auto
qed

text \<open>
  C5. For a non-empty pool with \<open>n\<close> keys and any \<open>n\<close> values of the random source, the
  first \<open>n\<close> calls of \<^verbatim>\<open>get()\<close> after the construction, and after a \<^verbatim>\<open>reset()\<close> in any
  state of the generator, succeed and return every key of the pool exactly once.
\<close>

theorem RandomGenerator_full_pass:
  assumes "pool \<noteq> []" and "distinct (map fst pool)" and "length rs = length pool"
    and "rg_from g0 = pool"
  shows "(\<exists>ks g'. RandomGenerator_gets rs (RandomGenerator_new pool) = Inr (ks, g') \<and>
            mset ks = mset (map fst pool) \<and> distinct ks \<and> set ks = fst ` set pool) \<and>
         (\<exists>ks g'. RandomGenerator_gets rs (RandomGenerator_reset g0) = Inr (ks, g') \<and>
            mset ks = mset (map fst pool) \<and> distinct ks \<and> set ks = fst ` set pool)"
  using full_pass_from_empty [of "RandomGenerator_new pool" pool rs] full_pass_from_empty [of "RandomGenerator_reset g0" pool rs] assms
  by (simp add: RandomGenerator_new_def RandomGenerator_reset_def)

theorem RandomGenerator_full_pass_witness:
  "\<exists>ks g'. RandomGenerator_gets [7, 4, 9]
               (RandomGenerator_new [(1::nat, ''one''), (2, ''two''), (3, ''three'')]) = Inr (ks, g') \<and>
      mset ks = mset (map fst [(1::nat, ''one''), (2, ''two''), (3, ''three'')]) \<and> distinct ks \<and>
      set ks = fst ` set [(1::nat, ''one''), (2, ''two''), (3, ''three'')]"
proof -
  let ?pool = "[(1::nat, ''one''), (2, ''two''), (3, ''three'')]"
  have "?pool \<noteq> []" "distinct (map fst ?pool)" "length [7, 4, 9::nat] = length ?pool"
    "rg_from (RandomGenerator_new ?pool) = ?pool"
    by (simp_all add: RandomGenerator_new_def)
  from RandomGenerator_full_pass [OF this] show ?thesis
    by (rule conjunct1)
qed

text \<open>
  C6. The claim is that no key comes twice between two resets and that an exhausted
  generator stays exhausted until \<^verbatim>\<open>reset()\<close>. \<^verbatim>\<open>get()\<close> refills its list whenever the
  list is empty: on a pool with the one key \<open>k\<close>, the first call returns \<open>k\<close> and leaves
  the list empty, and the second call, with no reset between, returns \<open>k\<close> again.
\<close>

theorem RandomGenerator_resumes_without_reset:
  "RandomGenerator_get r1 (RandomGenerator_new [(k, v)]) =
     Inr (k, \<lparr>rg_elems = [], rg_from = [(k, v)]\<rparr>) \<and>
   RandomGenerator_get r2 \<lparr>rg_elems = [], rg_from = [(k, v)]\<rparr> =
     Inr (k, \<lparr>rg_elems = [], rg_from = [(k, v)]\<rparr>)"
  by (simp add: RandomGenerator_new_def RandomGenerator_get_def)

subsection \<open>Combination generator\<close>

text \<open>
  C4. The claim gives \<open>C(n, k)\<close> combinations for every pool and every \<open>k\<close>, so one
  empty combination for an empty pool and \<open>k = 0\<close>. There \<^verbatim>\<open>bmap\<close> stays empty after
  \<^verbatim>\<open>get()\<close>, and an empty \<^verbatim>\<open>bmap\<close> is what \<^verbatim>\<open>hasNext()\<close> and \<^verbatim>\<open>get()\<close> take for a
  generator that has not started: \<^verbatim>\<open>get()\<close> returns the empty combination and leaves
  the generator as it was, \<^verbatim>\<open>hasNext()\<close> stays true, and the caller's loop ends with no
  amount of fuel.
\<close>

theorem CombinationGenerator_empty_pool_never_ends:
  "hasNext (CombinationGenerator_new [] 0) \<and>
   CombinationGenerator_get (CombinationGenerator_new [] 0) = Inr ([], CombinationGenerator_new [] 0) \<and>
   drain fuel (CombinationGenerator_new [] 0) = None"
proof -
  let ?g = "CombinationGenerator_new [] 0"
  have h: "hasNext ?g" by (simp add: hasNext_def CombinationGenerator_new_def)
  have g: "CombinationGenerator_get ?g = Inr ([], ?g)"
    by (simp add: CombinationGenerator_get_def CombinationGenerator_new_def next_permutation_def)
  have "drain fuel ?g = None"
    by (induction fuel) (simp_all add: h g)
  with h g show ?thesis by simp
qed

text \<open>
  For a pool that is not empty the claim of C4 holds: the caller's loop ends, with any
  fuel from \<open>C(n, k)\<close> on, and has then collected \<open>C(n, k)\<close> combinations, each of
  \<open>k\<close> elements of the pool, and pairwise distinct when the pool's elements are.
\<close>

lemma masks_empty: "n < k \<Longrightarrow> masks n k = []"
  by (induction n arbitrary: k) auto

lemma length_masks: "length (masks n k) = n choose k"
proof (induction n arbitrary: k)
  case 0
  then show ?case by simp
next
  case (Suc n)
  then show ?case by (cases k) simp_all
qed

lemma masks_length: "m \<in> set (masks n k) \<Longrightarrow> length m = n"
  by (induction n arbitrary: k m) (auto split: if_splits)

lemma masks_count: "m \<in> set (masks n k) \<Longrightarrow> length (filter (\<lambda>b. b) m) = k"
proof (induction n arbitrary: k m)
  case 0
  then show ?case by (simp split: if_splits)
next
  case (Suc n)
  from Suc.prems consider m' where "m = False # m'" "m' \<in> set (masks n k)"
    | m' where "m = True # m'" "m' \<in> set (masks n (k - 1))" "k \<noteq> 0"
    by (auto split: if_splits)
  then show ?case
  proof cases
    case 1
    then show ?thesis using Suc.IH [of m' k] by simp
  next
    case 2
    then show ?thesis using Suc.IH [of m' "k - 1"] by simp
  qed
qed

lemma distinct_masks: "distinct (masks n k)"
  by (induction n arbitrary: k) (auto simp add: distinct_map)

lemma masks_nonempty: "k \<le> n \<Longrightarrow> masks n k \<noteq> []"
proof (induction n arbitrary: k)
  case 0
  then show ?case by simp
next
  case (Suc n)
  then show ?case by (cases "k \<le> n") auto
qed

lemma hd_masks: "k \<le> n \<Longrightarrow> hd (masks n k) = replicate (n - k) False @ replicate k True"
proof (induction n arbitrary: k)
  case 0
  then show ?case by simp
next
  case (Suc n)
  show ?case
  proof (cases "k \<le> n")
    case True
    then show ?thesis
      using Suc.IH [of k] masks_nonempty [of k n] by (simp add: hd_append hd_map Suc_diff_le)
  next
    case False
    with Suc.prems have k: "k = Suc n" by simp
    then show ?thesis
      using Suc.IH [of n] masks_nonempty [of n n] by (simp add: masks_empty hd_map)
  qed
qed

lemma last_masks: "k \<le> n \<Longrightarrow> last (masks n k) = replicate k True @ replicate (n - k) False"
proof (induction n arbitrary: k)
  case 0
  then show ?case by simp
next
  case (Suc n)
  show ?case
  proof (cases k)
    case 0
    then show ?thesis
      using Suc.IH [of 0] masks_nonempty [of 0 n] by (simp add: last_map)
  next
    case (Suc j)
    with Suc.prems have j: "j \<le> n" by simp
    then show ?thesis
      using Suc Suc.IH [of j] masks_nonempty [of j n] by (simp add: last_map)
  qed
qed

lemma next_greater_False_replicate:
  "next_greater m = None \<Longrightarrow> m = replicate n False \<Longrightarrow> next_greater (False # m) = None"
  by (cases n) simp_all

lemma takeWhile_Not_replicate:
  "takeWhile Not (replicate i False @ True # ts) = replicate i False"
  by (induction i) simp_all

lemma dropWhile_Not_replicate:
  "dropWhile Not (replicate i False @ True # ts) = True # ts"
  by (induction i) simp_all

lemma swap_reverse_False:
  "swap_reverse False (True # replicate j True @ replicate i False) =
     True # False # replicate i False @ replicate j True"
proof -
  have "rev (True # replicate j True @ replicate i False) =
          replicate i False @ True # replicate j True"
    by (simp add: replicate_append_same)
  then show ?thesis
    by (simp add: swap_reverse_def Let_def takeWhile_Not_replicate dropWhile_Not_replicate
        replicate_append_same)
qed

lemma next_greater_False_last:
  assumes "next_greater (True # replicate j True @ replicate i False) = None"
  shows "next_greater (False # True # replicate j True @ replicate i False) =
     Some (True # False # replicate i False @ replicate j True)"
  using assms swap_reverse_False [of j i] by simp

lemma linked_map_Cons: "linked ms \<Longrightarrow> linked (map ((#) b) ms)"
  by (induction ms rule: linked.induct) simp_all

lemma linked_append:
  "linked xs \<Longrightarrow> linked ys \<Longrightarrow> xs \<noteq> [] \<Longrightarrow> ys \<noteq> [] \<Longrightarrow>
   next_greater (last xs) = Some (hd ys) \<Longrightarrow> linked (xs @ ys)"
proof (induction xs rule: linked.induct)
  case 1
  then show ?case by simp
next
  case (2 m)
  then show ?case by (cases ys) simp_all
next
  case (3 m m' ms)
  then show ?case by simp
qed

lemma linked_masks:
  "k \<le> n \<Longrightarrow> linked (masks n k) \<and> next_greater (last (masks n k)) = None"
proof (induction n arbitrary: k)
  case 0
  then show ?case by simp
next
  case (Suc n)
  show ?case
  proof (cases k)
    case 0
    have ne: "masks n 0 \<noteq> []" by (simp add: masks_nonempty)
    have "next_greater (False # last (masks n 0)) = None"
      using Suc.IH [of 0] last_masks [of 0 n]
      by (intro next_greater_False_replicate [of _ n]) simp_all
    then show ?thesis
      using 0 Suc.IH [of 0] ne by (simp add: linked_map_Cons last_map)
  next
    case (Suc j)
    with Suc.prems have j: "j \<le> n" by simp
    let ?B = "map ((#) True) (masks n j)"
    have neB: "masks n j \<noteq> []" using j by (simp add: masks_nonempty)
    have lB: "linked ?B" using Suc.IH [OF j] by (simp add: linked_map_Cons)
    have endB: "next_greater (last ?B) = None"
      using Suc.IH [OF j] neB by (simp add: last_map)
    show ?thesis
    proof (cases "k \<le> n")
      case True
      let ?A = "map ((#) False) (masks n k)"
      have neA: "masks n k \<noteq> []" using True by (simp add: masks_nonempty)
      have lA: "linked ?A" using Suc.IH [OF True] by (simp add: linked_map_Cons)
      have d: "n - j = Suc (n - k)" using True Suc by simp
      have "next_greater (True # replicate j True @ replicate (n - k) False) = None"
        using Suc.IH [OF True] last_masks [OF True] Suc by simp
      from next_greater_False_last [OF this]
      have "next_greater (last ?A) = Some (hd ?B)"
        using neA neB last_masks [OF True] hd_masks [OF j] Suc d
        by (simp add: last_map hd_map)
      with lA lB neA neB have "linked (?A @ ?B)"
        by (intro linked_append) simp_all
      then show ?thesis
        using Suc endB neB by simp
    next
      case False
      then have "masks n k = []" by (simp add: masks_empty)
      then show ?thesis
        using Suc lB endB by simp
    qed
  qed
qed

lemma length_chosen: "length (chosen elems m) = length (filter (\<lambda>b. b) m)"
proof -
  have "length (filter (\<lambda>i. m ! i) [0..<length m]) = card {i. i < length m \<and> m ! i}"
    using length_filter_conv_card [of "\<lambda>i. m ! i" "[0..<length m]"]
    by (simp cong: conj_cong)
  then show ?thesis
    by (simp add: chosen_def length_filter_conv_card)
qed

lemma set_chosen: "set (chosen elems m) = {elems ! i | i. i < length m \<and> m ! i}"
  by (auto simp add: chosen_def)

lemma set_chosen_subset: "length m \<le> length elems \<Longrightarrow> set (chosen elems m) \<subseteq> set elems"
  by (auto simp add: set_chosen)

lemma chosen_inj:
  assumes "distinct elems" "length m = length elems" "length m' = length elems"
    and "chosen elems m = chosen elems m'"
  shows "m = m'"
proof (rule nth_equalityI)
  show "length m = length m'" using assms by simp
next
  fix i assume i: "i < length m"
  have "m ! i \<longleftrightarrow> elems ! i \<in> set (chosen elems m)" if "length m = length elems" for m
    using that i assms(1,2) by (auto simp add: set_chosen nth_eq_iff_index_eq)
  from this [OF assms(2)] this [OF assms(3)] assms(4)
  show "m ! i = m' ! i" by simp
qed

lemma get_started:
  assumes "m \<noteq> []" and "length m = length pool"
  shows "CombinationGenerator_get
           \<lparr>cg_bmap = m, cg_elems = pool, cg_from = pool, cg_greater = gr, cg_ssize = k\<rparr> =
         Inr (chosen pool m,
              \<lparr>cg_bmap = fst (next_permutation m), cg_elems = pool, cg_from = pool,
               cg_greater = snd (next_permutation m), cg_ssize = k\<rparr>)"
  using assms
  by (simp add: CombinationGenerator_get_def Let_def list_ex_iff chosen_def split_beta)

lemma get_first:
  assumes "pool \<noteq> []" and "unat k \<le> length pool"
    and "m = replicate (length pool - unat k) False @ replicate (unat k) True"
  shows "CombinationGenerator_get (CombinationGenerator_new pool k) =
         Inr (chosen pool m,
              \<lparr>cg_bmap = fst (next_permutation m), cg_elems = pool, cg_from = pool,
               cg_greater = snd (next_permutation m), cg_ssize = k\<rparr>)"
  using assms
  by (simp add: CombinationGenerator_get_def CombinationGenerator_new_def Let_def list_ex_iff
      chosen_def split_beta)

lemma drain_exhausted: "\<not> hasNext g \<Longrightarrow> drain fuel g = Some (Inr [])"
  by (cases fuel) simp_all

lemma drain_step:
  assumes "hasNext g" and "CombinationGenerator_get g = Inr (c, g1)"
    and "drain fuel g1 = Some (Inr cs)"
  shows "drain (Suc fuel) g = Some (Inr (c # cs))"
  using assms by simp

lemma drain_from:
  assumes "linked (m # ms)" and "next_greater (last (m # ms)) = None"
    and "\<forall>x \<in> set (m # ms). x \<noteq> [] \<and> length x = length pool"
    and "CombinationGenerator_get g =
           Inr (chosen pool m,
                \<lparr>cg_bmap = fst (next_permutation m), cg_elems = pool, cg_from = pool,
                 cg_greater = snd (next_permutation m), cg_ssize = k\<rparr>)"
    and "hasNext g" and "length ms < fuel"
  shows "drain fuel g = Some (Inr (map (chosen pool) (m # ms)))"
  using assms
proof (induction ms arbitrary: m g fuel)
  case Nil
  then obtain f where f: "fuel = Suc f" by (cases fuel) simp_all
  from Nil have "next_permutation m = (rev m, False)"
    by (simp add: next_permutation_def)
  with Nil have g: "CombinationGenerator_get g =
      Inr (chosen pool m, \<lparr>cg_bmap = rev m, cg_elems = pool, cg_from = pool,
                 cg_greater = False, cg_ssize = k\<rparr>)"
    by simp
  have "\<not> hasNext \<lparr>cg_bmap = rev m, cg_elems = pool, cg_from = pool,
                 cg_greater = False, cg_ssize = k\<rparr>"
    using Nil.prems(3) by (simp add: hasNext_def)
  then have "drain f \<lparr>cg_bmap = rev m, cg_elems = pool, cg_from = pool,
                 cg_greater = False, cg_ssize = k\<rparr> = Some (Inr [])"
    by (rule drain_exhausted)
  from drain_step [OF Nil.prems(5) g this] show ?case
    using f by simp
next
  case (Cons m' ms)
  then obtain f where f: "fuel = Suc f" "length ms < f" by (cases fuel) simp_all
  let ?g1 = "\<lparr>cg_bmap = m', cg_elems = pool, cg_from = pool, cg_greater = True, cg_ssize = k\<rparr>"
  from Cons.prems(1) have "next_permutation m = (m', True)"
    by (simp add: next_permutation_def)
  with Cons.prems(4) have g: "CombinationGenerator_get g = Inr (chosen pool m, ?g1)"
    by simp
  have m': "m' \<noteq> []" "length m' = length pool" using Cons.prems(3) by simp_all
  have "drain f ?g1 = Some (Inr (map (chosen pool) (m' # ms)))"
  proof (rule Cons.IH)
    show "linked (m' # ms)" using Cons.prems(1) by simp
    show "next_greater (last (m' # ms)) = None" using Cons.prems(2) by simp
    show "\<forall>x \<in> set (m' # ms). x \<noteq> [] \<and> length x = length pool" using Cons.prems(3) by simp
    show "CombinationGenerator_get ?g1 =
           Inr (chosen pool m',
                \<lparr>cg_bmap = fst (next_permutation m'), cg_elems = pool, cg_from = pool,
                 cg_greater = snd (next_permutation m'), cg_ssize = k\<rparr>)"
      using m' by (rule get_started)
    show "hasNext ?g1" by (simp add: hasNext_def)
    show "length ms < f" by (rule f(2))
  qed
  from drain_step [OF Cons.prems(5) g this] show ?case
    using f by simp
qed

lemma CombinationGenerator_nonempty_pool:
  assumes "pool \<noteq> []"
  shows "\<exists>cs. (\<forall>fuel. (length pool choose unat k) \<le> fuel \<longrightarrow>
                  drain fuel (CombinationGenerator_new pool k) = Some (Inr cs)) \<and>
              length cs = (length pool choose unat k) \<and>
              (\<forall>c \<in> set cs. length c = unat k \<and> set c \<subseteq> set pool) \<and>
              (distinct pool \<longrightarrow> distinct cs)"
proof (cases "unat k \<le> length pool")
  case False
  then have "\<not> hasNext (CombinationGenerator_new pool k)"
    using assms by (simp add: hasNext_def CombinationGenerator_new_def)
  then have "drain fuel (CombinationGenerator_new pool k) = Some (Inr [])" for fuel
    by (rule drain_exhausted)
  moreover have "length pool choose unat k = 0" using False by simp
  ultimately show ?thesis by (intro exI [of _ "[]"]) simp
next
  case True
  let ?n = "length pool"
  let ?ms = "masks ?n (unat k)"
  let ?cs = "map (chosen pool) ?ms"
  from True obtain m ms where ms: "?ms = m # ms"
    using masks_nonempty [OF True] by (cases ?ms) simp_all
  have m: "m = replicate (?n - unat k) False @ replicate (unat k) True"
    using hd_masks [OF True] ms by simp
  have len: "\<forall>x \<in> set (m # ms). x \<noteq> [] \<and> length x = ?n"
  proof
    fix x assume "x \<in> set (m # ms)"
    then have "length x = ?n" using masks_length [of x ?n "unat k"] ms by simp
    then show "x \<noteq> [] \<and> length x = ?n" using assms by auto
  qed
  have run: "drain fuel (CombinationGenerator_new pool k) = Some (Inr ?cs)"
    if "(?n choose unat k) \<le> fuel" for fuel
    unfolding ms
  proof (rule drain_from)
    show "linked (m # ms)" "next_greater (last (m # ms)) = None"
      using linked_masks [OF True] ms by simp_all
    show "\<forall>x \<in> set (m # ms). x \<noteq> [] \<and> length x = ?n" by (rule len)
    show "CombinationGenerator_get (CombinationGenerator_new pool k) =
           Inr (chosen pool m,
                \<lparr>cg_bmap = fst (next_permutation m), cg_elems = pool, cg_from = pool,
                 cg_greater = snd (next_permutation m), cg_ssize = k\<rparr>)"
      using assms True m by (rule get_first)
    show "hasNext (CombinationGenerator_new pool k)"
      using True by (simp add: hasNext_def CombinationGenerator_new_def)
    show "length ms < fuel"
      using that length_masks [of ?n "unat k"] ms by simp
  qed
  have "length ?cs = (?n choose unat k)" by (simp add: length_masks)
  moreover have "\<forall>c \<in> set ?cs. length c = unat k \<and> set c \<subseteq> set pool"
  proof
    fix c assume "c \<in> set ?cs"
    then obtain x where x: "x \<in> set ?ms" "c = chosen pool x" by auto
    have "length x = ?n" using x(1) by (rule masks_length)
    then have "set (chosen pool x) \<subseteq> set pool" by (intro set_chosen_subset) simp
    moreover have "length (chosen pool x) = unat k"
      using masks_count [OF x(1)] by (simp add: length_chosen)
    ultimately show "length c = unat k \<and> set c \<subseteq> set pool" using x(2) by simp
  qed
  moreover have "distinct ?cs" if d: "distinct pool"
    unfolding distinct_map
  proof
    show "distinct ?ms" by (rule distinct_masks)
    show "inj_on (chosen pool) (set ?ms)"
    proof (rule inj_onI)
      fix x y assume "x \<in> set ?ms" "y \<in> set ?ms" and eq: "chosen pool x = chosen pool y"
      then have "length x = ?n" "length y = ?n" by (simp_all add: masks_length)
      with d show "x = y" using eq by (intro chosen_inj [of pool])
    qed
  qed
  ultimately show ?thesis using run by (intro exI [of _ ?cs]) blast
qed

end
